theory Spec2Isabelle
  imports Main "HOL-Library.Word" "HOL-Library.Multiset"
begin

section \<open>Protocol messages used by the proxy\<close>

type_synonym uint8 = "8 word"
type_synonym uint16 = "16 word"
type_synonym uint32 = "32 word"
type_synonym uint64 = "64 word"

text \<open>
  The declarations of package \<^verbatim>\<open>plan9\<close> (\<^verbatim>\<open>Fcall\<close>, \<^verbatim>\<open>Qid\<close> and the message
  constants) are not among the sources; \<^verbatim>\<open>conn_test.go\<close> only uses them. The records
  below carry the fields that file reads or writes, with the widths of 9P2000.
\<close>

record Qid =
  Qid_Path :: uint64
  Qid_Vers :: uint32
  Qid_Type :: uint8

record Fcall =
  Type :: uint8
  Fid :: uint32
  Tag :: uint16
  Msize :: uint32
  Version :: string
  Ename :: string
  Qid :: Qid
  Newfid :: uint32
  Wname :: "string list"
  Wqid :: "Qid list"

text \<open>Go's zero values, which every composite literal starts from.\<close>

definition Qid0 :: Qid where
  "Qid0 = \<lparr>Qid_Path = 0, Qid_Vers = 0, Qid_Type = 0\<rparr>"

definition Fcall0 :: Fcall where
  "Fcall0 = \<lparr>Type = 0, Fid = 0, Tag = 0, Msize = 0, Version = [], Ename = [],
     Qid = Qid0, Newfid = 0, Wname = [], Wqid = []\<rparr>"

text \<open>
  Modelled from the spec: the message type discriminants, the reserved "no-tag" value and
  the qid type bits of package \<^verbatim>\<open>plan9\<close>, whose declarations are missing. The numbers
  are those of the 9P2000 wire protocol; the theorems below use only that they differ.
\<close>

definition Tversion :: uint8 where "Tversion = 100"
definition Rversion :: uint8 where "Rversion = 101"
definition Tattach :: uint8 where "Tattach = 104"
definition Rattach :: uint8 where "Rattach = 105"
definition Rerror :: uint8 where "Rerror = 107"
definition Tflush :: uint8 where "Tflush = 108"
definition Twalk :: uint8 where "Twalk = 110"
definition Rwalk :: uint8 where "Rwalk = 111"
definition Topen :: uint8 where "Topen = 112"
definition Ropen :: uint8 where "Ropen = 113"
definition Tread :: uint8 where "Tread = 116"
definition Tclunk :: uint8 where "Tclunk = 120"
definition Rclunk :: uint8 where "Rclunk = 121"
definition NOTAG :: uint16 where "NOTAG = 0xFFFF"
definition QTDIR :: uint8 where "QTDIR = 0x80"
definition QTFILE :: uint8 where "QTFILE = 0x00"

section \<open>The proxy server of \<^verbatim>\<open>conn_test.go\<close>\<close>

text \<open>
  A Go channel of \<^verbatim>\<open>struct{}\<close> that is only ever closed: nil, open or closed.
  Closing a nil channel panics.
\<close>

datatype chan = ChanNil | ChanOpen | ChanClosed

text \<open>
  \<^verbatim>\<open>proxyServer\<close>. \<open>out\<close> is the sequence of messages handed to \<^verbatim>\<open>s.send\<close>, in the order
  of the sends: the channel is a FIFO that \<^verbatim>\<open>sender\<close> drains in order, and a full channel
  delays a send without changing it. \<open>fids\<close> is the Go map \<^verbatim>\<open>map[uint32]bool\<close>;
  \<open>clunkDelay\<close> a \<^verbatim>\<open>time.Duration\<close> in nanoseconds. The connection is the stream of
  \<open>Read\<close> events below.
\<close>

record proxyServer =
  out :: "Fcall list"
  fids :: "uint32 \<rightharpoonup> bool"
  clunkDelay :: int
  clunkSeen :: chan

text \<open>Indexing a Go map: a missing key reads as the zero value \<^verbatim>\<open>false\<close>.\<close>

definition fids_at :: "(uint32 \<rightharpoonup> bool) \<Rightarrow> uint32 \<Rightarrow> bool" where
  "fids_at m k = (case m k of None \<Rightarrow> False | Some b \<Rightarrow> b)"

definition send :: "proxyServer \<Rightarrow> Fcall \<Rightarrow> proxyServer" where
  "send s f = s\<lparr>out := out s @ [f]\<rparr>"

text \<open>
  Where \<^verbatim>\<open>serve\<close> stands: before the first read, before the second, in the loop,
  returned after a failed read, or dead after a panic.
\<close>

datatype pc = AtVersion | AtAttach | AtLoop | Returned | Panicked

text \<open>
  The goroutine started for a Tclunk. It captures \<open>tag\<close> and \<open>fid\<close>, sleeps, deletes the
  fid under the lock, and sends Rclunk. \<open>g_since\<close> is the time it was started at.
\<close>

datatype gstage = Sleeping | Deleted | Finished

record clunker =
  g_tag :: uint16
  g_fid :: uint32
  g_since :: int
  g_stage :: gstage

record world =
  srv :: proxyServer
  pc :: pc
  gos :: "clunker list"
  now :: int

text \<open>The three cases of the \<^verbatim>\<open>switch\<close> and its default, for a message \<open>f\<close> read in the loop.\<close>

definition walk_qids :: "Fcall \<Rightarrow> Qid list" where
  "walk_qids f = replicate (length (Wname f)) (Qid0\<lparr>Qid_Type := QTFILE, Qid_Path := 1\<rparr>)"

definition serve_Twalk :: "world \<Rightarrow> Fcall \<Rightarrow> world" where
  "serve_Twalk w f =
     (let s = srv w;
          dup = (fids_at (fids s) (Newfid f) \<and> Newfid f \<noteq> Fid f);
          s1 = (if \<not> dup then s\<lparr>fids := (fids s)(Newfid f \<mapsto> True)\<rparr> else s)
      in if dup
         then w\<lparr>srv := send s1 (Fcall0\<lparr>Type := Rerror, Tag := Tag f, Ename := ''duplicate fid''\<rparr>)\<rparr>
         else w\<lparr>srv := send s1 (Fcall0\<lparr>Type := Rwalk, Tag := Tag f, Wqid := walk_qids f\<rparr>)\<rparr>)"

definition serve_Topen :: "world \<Rightarrow> Fcall \<Rightarrow> world" where
  "serve_Topen w f =
     w\<lparr>srv := send (srv w) (Fcall0\<lparr>Type := Ropen, Tag := Tag f,
          Qid := Qid0\<lparr>Qid_Type := QTFILE, Qid_Path := 1\<rparr>\<rparr>)\<rparr>"

definition serve_Tclunk :: "world \<Rightarrow> Fcall \<Rightarrow> world" where
  "serve_Tclunk w f =
     (case clunkSeen (srv w) of
        ChanNil \<Rightarrow> w\<lparr>pc := Panicked\<rparr>
      | _ \<Rightarrow> w\<lparr>srv := (srv w)\<lparr>clunkSeen := ChanClosed\<rparr>,
               gos := gos w @ [\<lparr>g_tag = Tag f, g_fid = Fid f, g_since = now w,
                                g_stage = Sleeping\<rparr>]\<rparr>)"

definition serve_default :: "world \<Rightarrow> Fcall \<Rightarrow> world" where
  "serve_default w f =
     w\<lparr>srv := send (srv w) (Fcall0\<lparr>Type := Rerror, Tag := Tag f, Ename := ''not supported''\<rparr>)\<rparr>"

definition serve_loop :: "world \<Rightarrow> Fcall \<Rightarrow> world" where
  "serve_loop w f =
     (if Type f = Twalk then serve_Twalk w f
      else if Type f = Topen then serve_Topen w f
      else if Type f = Tclunk then serve_Tclunk w f
      else serve_default w f)"

definition serve_version :: "world \<Rightarrow> Fcall \<Rightarrow> world" where
  "serve_version w f =
     w\<lparr>srv := send (srv w) (Fcall0\<lparr>Type := Rversion, Tag := NOTAG, Msize := Msize f,
          Version := ''9P2000''\<rparr>), pc := AtAttach\<rparr>"

definition serve_attach :: "world \<Rightarrow> Fcall \<Rightarrow> world" where
  "serve_attach w f =
     w\<lparr>srv := send ((srv w)\<lparr>fids := (fids (srv w))(Fid f \<mapsto> True)\<rparr>)
          (Fcall0\<lparr>Type := Rattach, Tag := Tag f, Qid := Qid0\<lparr>Qid_Type := QTDIR\<rparr>\<rparr>),
       pc := AtLoop\<rparr>"

text \<open>
  What can happen next. \<open>Read r\<close>: \<^verbatim>\<open>s.read()\<close> returns \<open>r\<close> (\<open>None\<close> for nil, after a read
  error) and \<^verbatim>\<open>serve\<close> runs up to its next read. \<open>Advance d\<close>: \<open>d\<close> nanoseconds pass.
  \<open>GoDelete i\<close>: goroutine \<open>i\<close> returns from \<^verbatim>\<open>time.Sleep\<close>, which it may once \<open>clunkDelay\<close>
  has passed since it was started, and deletes its fid. \<open>GoSend i\<close>: it sends Rclunk.
  \<open>MakeClunkSeen\<close>: the test stores a fresh channel in \<^verbatim>\<open>srv.clunkSeen\<close>.
  An event that cannot happen in the state gives \<open>None\<close>.
\<close>

datatype event = Read "Fcall option" | Advance nat | GoDelete nat | GoSend nat | MakeClunkSeen

definition serve_read :: "world \<Rightarrow> Fcall option \<Rightarrow> world option" where
  "serve_read w r =
     (case pc w of
        AtVersion \<Rightarrow> (case r of None \<Rightarrow> Some (w\<lparr>pc := Returned\<rparr>) | Some f \<Rightarrow> Some (serve_version w f))
      | AtAttach \<Rightarrow> (case r of None \<Rightarrow> Some (w\<lparr>pc := Returned\<rparr>) | Some f \<Rightarrow> Some (serve_attach w f))
      | AtLoop \<Rightarrow> (case r of None \<Rightarrow> Some (w\<lparr>pc := Returned\<rparr>) | Some f \<Rightarrow> Some (serve_loop w f))
      | Returned \<Rightarrow> None
      | Panicked \<Rightarrow> None)"

definition go_delete :: "world \<Rightarrow> nat \<Rightarrow> world option" where
  "go_delete w i =
     (if i < length (gos w) \<and> pc w \<noteq> Panicked then
        (let g = gos w ! i in
         if g_stage g = Sleeping \<and> g_since g + clunkDelay (srv w) \<le> now w
         then Some (w\<lparr>srv := (srv w)\<lparr>fids := (fids (srv w))(g_fid g := None)\<rparr>,
                      gos := (gos w)[i := g\<lparr>g_stage := Deleted\<rparr>]\<rparr>)
         else None)
      else None)"

definition go_send :: "world \<Rightarrow> nat \<Rightarrow> world option" where
  "go_send w i =
     (if i < length (gos w) \<and> pc w \<noteq> Panicked then
        (let g = gos w ! i in
         if g_stage g = Deleted
         then Some (w\<lparr>srv := send (srv w) (Fcall0\<lparr>Type := Rclunk, Tag := g_tag g\<rparr>),
                      gos := (gos w)[i := g\<lparr>g_stage := Finished\<rparr>]\<rparr>)
         else None)
      else None)"

fun step :: "world \<Rightarrow> event \<Rightarrow> world option" where
  "step w (Read r) = serve_read w r"
| "step w (Advance d) = (if pc w = Panicked then None else Some (w\<lparr>now := now w + int d\<rparr>))"
| "step w (GoDelete i) = go_delete w i"
| "step w (GoSend i) = go_send w i"
| "step w MakeClunkSeen =
     (if pc w = Panicked then None else Some (w\<lparr>srv := (srv w)\<lparr>clunkSeen := ChanOpen\<rparr>\<rparr>))"

fun run :: "world \<Rightarrow> event list \<Rightarrow> world option" where
  "run w [] = Some w"
| "run w (e # es) = (case step w e of None \<Rightarrow> None | Some w' \<Rightarrow> run w' es)"

text \<open>
  The server as \<^verbatim>\<open>TestFidRecycle\<close> builds it: an empty table, a nil \<^verbatim>\<open>clunkSeen\<close>,
  nothing sent, and \<^verbatim>\<open>serve\<close> about to read.
\<close>

definition new_world :: "int \<Rightarrow> world" where
  "new_world delay =
     \<lparr>srv = \<lparr>out = [], fids = Map.empty, clunkDelay = delay, clunkSeen = ChanNil\<rparr>,
      pc = AtVersion, gos = [], now = 0\<rparr>"

text \<open>The messages a run reads: all of them, and the first.\<close>

fun reads :: "event list \<Rightarrow> Fcall list" where
  "reads [] = []"
| "reads (Read (Some f) # es) = f # reads es"
| "reads (e # es) = reads es"

fun first_read :: "event list \<Rightarrow> Fcall option" where
  "first_read [] = None"
| "first_read (Read r # es) = r"
| "first_read (e # es) = first_read es"

text \<open>The goroutines that have not sent their Rclunk yet.\<close>

definition unsent :: "world \<Rightarrow> clunker list" where
  "unsent w = filter (\<lambda>g. g_stage g \<noteq> Finished) (gos w)"

text \<open>
  The tags the server has answered with or still owes an answer to: those of the messages
  sent, and those captured by the goroutines that have not sent yet.
\<close>

definition gtags :: "clunker list \<Rightarrow> uint16 multiset" where
  "gtags gs = mset (map g_tag (filter (\<lambda>g. g_stage g \<noteq> Finished) gs))"

definition tags_out :: "world \<Rightarrow> uint16 multiset" where
  "tags_out w = mset (map Tag (out (srv w))) + mset (map g_tag (unsent w))"

text \<open>
  Concrete inputs: the requests of a client that follows the protocol, and the server in
  its loop after the attach of fid 0.
\<close>

definition tversion0 :: Fcall where
  "tversion0 = Fcall0\<lparr>Type := Tversion, Tag := NOTAG, Msize := 8192, Version := ''9P2000''\<rparr>"

definition tattach0 :: Fcall where
  "tattach0 = Fcall0\<lparr>Type := Tattach, Tag := 1, Fid := 0\<rparr>"

definition twalk0 :: Fcall where
  "twalk0 = Fcall0\<lparr>Type := Twalk, Tag := 1, Fid := 0, Newfid := 1, Wname := [''file'']\<rparr>"

definition tclunk0 :: Fcall where
  "tclunk0 = Fcall0\<lparr>Type := Tclunk, Tag := 2, Fid := 1\<rparr>"

definition tread0 :: Fcall where
  "tread0 = Fcall0\<lparr>Type := Tread, Tag := 3, Fid := 1\<rparr>"

definition loop_world :: world where
  "loop_world = (new_world 5000000)\<lparr>pc := AtLoop,
     srv := (srv (new_world 5000000))\<lparr>fids := [0 \<mapsto> True, 1 \<mapsto> True], clunkSeen := ChanOpen\<rparr>\<rparr>"




definition session :: "event list" where
  "session = [Read (Some tversion0), Read (Some tattach0), MakeClunkSeen,
     Read (Some twalk0), Read (Some tclunk0), Advance 5000000, GoDelete 0,
     Read (Some tread0), GoSend 0]"

section \<open>The client's fid lifecycle, from the specification\<close>

text \<open>
  Modelled from the spec: the Fid Lifecycle Manager (section 4.3) and the Session API
  (section 4.4) of package \<^verbatim>\<open>client\<close>. The package's source is missing: \<^verbatim>\<open>conn_test.go\<close>
  is its test and only calls it. A fid is \<open>allocated\<close>, then \<open>active\<close>, then \<open>retiring\<close>,
  then \<open>free\<close>; a number the manager has never handed out has no state. The manager
  keeps the numbers freed and not handed out again, and the next unused number. Fid
  numbers have a fixed width and one value means "no fid", so the unused numbers end
  below it; the spec does not say what \<open>allocate\<close> does then, and since a live number is
  never handed out, here it fails.
\<close>

datatype liveness = Allocated | Active | Retiring | Free

record fidmgr =
  m_state :: "uint32 \<rightharpoonup> liveness"
  m_freed :: "uint32 list"
  m_next :: nat

datatype mgr_error = OutOfFids | Misuse

definition NOFID :: uint32 where "NOFID = 0xFFFFFFFF"

definition mgr0 :: fidmgr where
  "mgr0 = \<lparr>m_state = Map.empty, m_freed = [], m_next = 0\<rparr>"

text \<open>
  \<open>allocate\<close>: a previously freed number when there is one, otherwise the next unused
  number. The spec does not say which freed number; \<open>c\<close> chooses.
\<close>

definition allocate :: "nat \<Rightarrow> fidmgr \<Rightarrow> mgr_error + (uint32 \<times> fidmgr)" where
  "allocate c m =
     (if m_freed m \<noteq> [] then
        (let n = m_freed m ! (c mod length (m_freed m))
         in Inr (n, m\<lparr>m_state := (m_state m)(n \<mapsto> Allocated),
                       m_freed := remove1 n (m_freed m)\<rparr>))
      else if m_next m < unat NOFID then
        Inr (of_nat (m_next m),
             m\<lparr>m_state := (m_state m)(of_nat (m_next m) \<mapsto> Allocated),
               m_next := Suc (m_next m)\<rparr>)
      else Inl OutOfFids)"

definition markActive :: "uint32 \<Rightarrow> fidmgr \<Rightarrow> mgr_error + fidmgr" where
  "markActive n m =
     (if m_state m n = Some Allocated then Inr (m\<lparr>m_state := (m_state m)(n \<mapsto> Active)\<rparr>)
      else Inl Misuse)"

definition beginRetire :: "uint32 \<Rightarrow> fidmgr \<Rightarrow> mgr_error + fidmgr" where
  "beginRetire n m =
     (if m_state m n = Some Active then Inr (m\<lparr>m_state := (m_state m)(n \<mapsto> Retiring)\<rparr>)
      else Inl Misuse)"

definition confirmRetire :: "uint32 \<Rightarrow> fidmgr \<Rightarrow> mgr_error + fidmgr" where
  "confirmRetire n m =
     (if m_state m n = Some Retiring
      then Inr (m\<lparr>m_state := (m_state m)(n \<mapsto> Free), m_freed := n # m_freed m\<rparr>)
      else Inl Misuse)"

text \<open>
  Section 4.4: a fid whose attach or walk failed is freed at once, since the server never
  had it.
\<close>

definition release :: "uint32 \<Rightarrow> fidmgr \<Rightarrow> mgr_error + fidmgr" where
  "release n m =
     (if m_state m n = Some Allocated
      then Inr (m\<lparr>m_state := (m_state m)(n \<mapsto> Free), m_freed := n # m_freed m\<rparr>)
      else Inl Misuse)"

text \<open>
  The operations of a connection that is up, and what each call returned.
  \<open>ConfirmRetire\<close> is the delivery of the server's acknowledgment: the spec has it called
  on receipt of that response only. (\<open>abortOnDisconnect\<close> ends the connection and is not
  among them.)
\<close>

datatype op = Allocate nat | MarkActive uint32 | BeginRetire uint32 | ConfirmRetire uint32
  | Release uint32

datatype outcome = Gave uint32 | Done | Refused mgr_error

fun apply_op :: "fidmgr \<Rightarrow> op \<Rightarrow> fidmgr \<times> outcome" where
  "apply_op m (Allocate c) =
     (case allocate c m of Inl e \<Rightarrow> (m, Refused e) | Inr (n, m') \<Rightarrow> (m', Gave n))"
| "apply_op m (MarkActive n) =
     (case markActive n m of Inl e \<Rightarrow> (m, Refused e) | Inr m' \<Rightarrow> (m', Done))"
| "apply_op m (BeginRetire n) =
     (case beginRetire n m of Inl e \<Rightarrow> (m, Refused e) | Inr m' \<Rightarrow> (m', Done))"
| "apply_op m (ConfirmRetire n) =
     (case confirmRetire n m of Inl e \<Rightarrow> (m, Refused e) | Inr m' \<Rightarrow> (m', Done))"
| "apply_op m (Release n) =
     (case release n m of Inl e \<Rightarrow> (m, Refused e) | Inr m' \<Rightarrow> (m', Done))"

fun exec :: "fidmgr \<Rightarrow> op list \<Rightarrow> fidmgr" where
  "exec m [] = m"
| "exec m (x # xs) = exec (fst (apply_op m x)) xs"

fun trace :: "fidmgr \<Rightarrow> op list \<Rightarrow> (op \<times> outcome) list" where
  "trace m [] = []"
| "trace m (x # xs) = (x, snd (apply_op m x)) # trace (fst (apply_op m x)) xs"

text \<open>What the manager keeps true of itself.\<close>

definition mgr_wf :: "fidmgr \<Rightarrow> bool" where
  "mgr_wf m \<longleftrightarrow>
     distinct (m_freed m) \<and> (\<forall>n \<in> set (m_freed m). m_state m n = Some Free) \<and>
     (\<forall>n. m_state m n \<noteq> None \<longrightarrow> unat n < m_next m) \<and> m_next m \<le> unat NOFID"

definition live :: "fidmgr \<Rightarrow> uint32 \<Rightarrow> bool" where
  "live m n \<longleftrightarrow> m_state m n = Some Allocated \<or> m_state m n = Some Active \<or>
     m_state m n = Some Retiring"

section \<open>The client and the proxy on one connection\<close>

text \<open>
  Modelled from the spec (sections 4.2 and 4.4): what the client waits for under each
  tag, and what it does with a response. The requests written and not yet read by the
  server are \<open>wire\<close>; the server is the proxy above; \<open>got\<close> counts the responses the
  client's reader has taken, in the order the server sent them.
\<close>

datatype waiting = WWalk uint32 | WOpen uint32 | WClunk uint32

record client =
  mgr :: fidmgr
  pending :: "uint16 \<rightharpoonup> waiting"

record net =
  cl :: client
  wire :: "Fcall list"
  px :: world
  got :: nat

definition mgr_do :: "(fidmgr \<Rightarrow> mgr_error + fidmgr) \<Rightarrow> fidmgr \<Rightarrow> fidmgr" where
  "mgr_do f m = (case f m of Inl e \<Rightarrow> m | Inr m' \<Rightarrow> m')"

text \<open>
  \<open>walk\<close> allocates the new fid and sends Twalk; \<open>open\<close> works on an active fid;
  \<open>close\<close> begins the retirement and sends Tclunk. Each takes a tag that is not in use.
  A call the manager refuses sends nothing.
\<close>

definition c_walk :: "uint16 \<Rightarrow> nat \<Rightarrow> uint32 \<Rightarrow> string list \<Rightarrow> net \<Rightarrow> net option" where
  "c_walk tag c src names s =
     (if tag = NOTAG \<or> pending (cl s) tag \<noteq> None then None
      else case allocate c (mgr (cl s)) of
        Inl e \<Rightarrow> None
      | Inr (n, m') \<Rightarrow>
          Some (s\<lparr>cl := (cl s)\<lparr>mgr := m', pending := (pending (cl s))(tag \<mapsto> WWalk n)\<rparr>,
                  wire := wire s @ [Fcall0\<lparr>Type := Twalk, Tag := tag, Fid := src, Newfid := n,
                                      Wname := names\<rparr>]\<rparr>))"

definition c_open :: "uint16 \<Rightarrow> uint32 \<Rightarrow> net \<Rightarrow> net option" where
  "c_open tag f s =
     (if tag = NOTAG \<or> pending (cl s) tag \<noteq> None \<or> m_state (mgr (cl s)) f \<noteq> Some Active
      then None
      else Some (s\<lparr>cl := (cl s)\<lparr>pending := (pending (cl s))(tag \<mapsto> WOpen f)\<rparr>,
                   wire := wire s @ [Fcall0\<lparr>Type := Topen, Tag := tag, Fid := f\<rparr>]\<rparr>))"

definition c_close :: "uint16 \<Rightarrow> uint32 \<Rightarrow> net \<Rightarrow> net option" where
  "c_close tag f s =
     (if tag = NOTAG \<or> pending (cl s) tag \<noteq> None then None
      else case beginRetire f (mgr (cl s)) of
        Inl e \<Rightarrow> None
      | Inr m' \<Rightarrow>
          Some (s\<lparr>cl := (cl s)\<lparr>mgr := m', pending := (pending (cl s))(tag \<mapsto> WClunk f)\<rparr>,
                  wire := wire s @ [Fcall0\<lparr>Type := Tclunk, Tag := tag, Fid := f\<rparr>]\<rparr>))"

text \<open>
  The reader delivers a response to the caller waiting under its tag. A walk that
  succeeded makes its fid active, one that failed frees it; only an Rclunk confirms a
  retirement. A response under a tag nobody waits for is fatal to the connection.
\<close>

fun deliver :: "waiting \<Rightarrow> Fcall \<Rightarrow> fidmgr \<Rightarrow> fidmgr" where
  "deliver (WWalk n) r m =
     (if Type r = Rwalk then mgr_do (markActive n) m else mgr_do (release n) m)"
| "deliver (WOpen f) r m = m"
| "deliver (WClunk n) r m = (if Type r = Rclunk then mgr_do (confirmRetire n) m else m)"

definition c_recv :: "net \<Rightarrow> net option" where
  "c_recv s =
     (if got s < length (out (srv (px s))) then
        (let r = out (srv (px s)) ! got s in
         case pending (cl s) (Tag r) of
           None \<Rightarrow> None
         | Some k \<Rightarrow>
             Some (s\<lparr>cl := (cl s)\<lparr>mgr := deliver k r (mgr (cl s)),
                                  pending := (pending (cl s))(Tag r := None)\<rparr>,
                     got := Suc (got s)\<rparr>))
      else None)"

text \<open>The server reads the next request on the wire.\<close>

definition p_read :: "net \<Rightarrow> net option" where
  "p_read s =
     (case wire s of
        [] \<Rightarrow> None
      | q # qs \<Rightarrow>
          (case step (px s) (Read (Some q)) of
             None \<Rightarrow> None
           | Some w \<Rightarrow> Some (s\<lparr>px := w, wire := qs\<rparr>)))"

text \<open>Time, the goroutines and the test's fresh channel move the server alone.\<close>

definition p_int :: "event \<Rightarrow> net \<Rightarrow> net option" where
  "p_int e s =
     (case e of
        Read r \<Rightarrow> None
      | _ \<Rightarrow> (case step (px s) e of None \<Rightarrow> None | Some w \<Rightarrow> Some (s\<lparr>px := w\<rparr>)))"

datatype nevent = CWalk uint16 nat uint32 "string list" | COpen uint16 uint32
  | CClose uint16 uint32 | CRecv | PRead | PInt event

fun nstep :: "net \<Rightarrow> nevent \<Rightarrow> net option" where
  "nstep s (CWalk tag c src names) = c_walk tag c src names s"
| "nstep s (COpen tag f) = c_open tag f s"
| "nstep s (CClose tag f) = c_close tag f s"
| "nstep s CRecv = c_recv s"
| "nstep s PRead = p_read s"
| "nstep s (PInt e) = p_int e s"

fun nrun :: "net \<Rightarrow> nevent list \<Rightarrow> net option" where
  "nrun s [] = Some s"
| "nrun s (e # es) = (case nstep s e of None \<Rightarrow> None | Some s' \<Rightarrow> nrun s' es)"

text \<open>
  The connection after \<^verbatim>\<open>NewConn\<close> and \<^verbatim>\<open>Attach\<close>: the version handshake is done, the root
  fid 0 is allocated, attached and active, and the client has read both responses.
\<close>

definition net0 :: "int \<Rightarrow> net" where
  "net0 delay =
     \<lparr>cl = \<lparr>mgr = exec mgr0 [Allocate 0, MarkActive 0], pending = Map.empty\<rparr>,
      wire = [],
      px = serve_attach (serve_version (new_world delay) tversion0) tattach0,
      got = 2\<rparr>"

definition dup_rejections :: "net \<Rightarrow> nat" where
  "dup_rejections s =
     length (filter (\<lambda>r. Type r = Rerror \<and> Ename r = ''duplicate fid'') (out (srv (px s))))"

text \<open>
  One round of \<^verbatim>\<open>TestFidRecycle\<close>, in the order that is worst for the client: the file is
  opened (fid 1), its close is started in the background under tag 2, the server reads
  the Tclunk, and the file is opened again and closed before either Rclunk arrives.
  \<open>i\<close> is the number of the round; the goroutines of round \<open>i\<close> are \<open>2 * i\<close> and \<open>2 * i + 1\<close>.
\<close>

definition round :: "nat \<Rightarrow> nevent list" where
  "round i =
     [PInt MakeClunkSeen,
      CWalk 1 1 0 [''file''], PRead, CRecv, COpen 1 1, PRead, CRecv,
      CClose 2 1, PRead,
      CWalk 1 0 0 [''file''], PRead, CRecv, COpen 1 2, PRead, CRecv,
      CClose 1 2, PRead,
      PInt (Advance 5000000),
      PInt (GoDelete (2 * i)), PInt (GoSend (2 * i)),
      PInt (GoDelete (2 * i + 1)), PInt (GoSend (2 * i + 1)),
      CRecv, CRecv]"

definition rounds :: "nat \<Rightarrow> nevent list" where
  "rounds n = concat (map round [0..<n])"

text \<open>
  What holds of the two sides together. The responses sent and not yet taken by the
  client are \<open>inflight\<close>. Every tag on its way (on the wire, held by a goroutine that has
  still to send, or on a response in flight) is there once, and the client waits under
  it for what is on its way.
\<close>

definition inflight :: "net \<Rightarrow> Fcall list" where
  "inflight s = drop (got s) (out (srv (px s)))"

definition tokens :: "net \<Rightarrow> uint16 list" where
  "tokens s = map Tag (wire s) @ map g_tag (unsent (px s)) @ map Tag (inflight s)"

fun asked :: "waiting option \<Rightarrow> Fcall \<Rightarrow> bool" where
  "asked (Some (WWalk n)) q \<longleftrightarrow> Type q = Twalk \<and> Newfid q = n"
| "asked (Some (WOpen f)) q \<longleftrightarrow> Type q = Topen \<and> Fid q = f"
| "asked (Some (WClunk n)) q \<longleftrightarrow> Type q = Tclunk \<and> Fid q = n"
| "asked None q \<longleftrightarrow> False"

fun answers :: "waiting option \<Rightarrow> Fcall \<Rightarrow> bool" where
  "answers (Some (WWalk n)) r \<longleftrightarrow> Type r = Rwalk"
| "answers (Some (WOpen f)) r \<longleftrightarrow> Type r = Ropen"
| "answers (Some (WClunk n)) r \<longleftrightarrow> Type r = Rclunk"
| "answers None r \<longleftrightarrow> False"

definition inv_px :: "net \<Rightarrow> bool" where
  "inv_px s \<longleftrightarrow> (pc (px s) = AtLoop \<or> pc (px s) = Panicked) \<and> got s \<le> length (out (srv (px s)))"

definition inv_live :: "net \<Rightarrow> bool" where
  "inv_live s \<longleftrightarrow> (\<forall>n. fids_at (fids (srv (px s))) n \<longrightarrow> live (mgr (cl s)) n)"

definition inv_wire :: "net \<Rightarrow> bool" where
  "inv_wire s \<longleftrightarrow>
     (\<forall>q \<in> set (wire s). asked (pending (cl s) (Tag q)) q \<and>
        (Type q = Twalk \<longrightarrow> \<not> fids_at (fids (srv (px s))) (Newfid q)))"

definition inv_gos :: "net \<Rightarrow> bool" where
  "inv_gos s \<longleftrightarrow>
     (\<forall>g \<in> set (unsent (px s)). pending (cl s) (g_tag g) = Some (WClunk (g_fid g)) \<and>
        (g_stage g = Deleted \<longrightarrow> \<not> fids_at (fids (srv (px s))) (g_fid g)))"

definition inv_resp :: "net \<Rightarrow> bool" where
  "inv_resp s \<longleftrightarrow>
     (\<forall>r \<in> set (inflight s). answers (pending (cl s) (Tag r)) r \<and>
        (\<forall>n. pending (cl s) (Tag r) = Some (WClunk n) \<longrightarrow> \<not> fids_at (fids (srv (px s))) n))"

definition inv_pend :: "net \<Rightarrow> bool" where
  "inv_pend s \<longleftrightarrow>
     (\<forall>t n. pending (cl s) t = Some (WWalk n) \<longrightarrow> m_state (mgr (cl s)) n = Some Allocated) \<and>
     (\<forall>t n. pending (cl s) t = Some (WClunk n) \<longrightarrow> m_state (mgr (cl s)) n = Some Retiring) \<and>
     (\<forall>t t' n. pending (cl s) t = Some (WWalk n) \<and> pending (cl s) t' = Some (WWalk n) \<longrightarrow> t = t') \<and>
     (\<forall>t t' n. pending (cl s) t = Some (WClunk n) \<and> pending (cl s) t' = Some (WClunk n) \<longrightarrow> t = t')"

definition inv :: "net \<Rightarrow> bool" where
  "inv s \<longleftrightarrow> mgr_wf (mgr (cl s)) \<and> inv_px s \<and> inv_live s \<and> inv_wire s \<and> inv_gos s \<and>
     inv_resp s \<and> distinct (tokens s) \<and> inv_pend s \<and> dup_rejections s = 0"

text \<open>
  The connection between two rounds of the test, before round \<open>i\<close>: nothing is on its way,
  the server is in its loop with two finished goroutines for each round so far, and fids
  1 and 2 are free on both sides.
\<close>

definition rested :: "nat \<Rightarrow> net \<Rightarrow> bool" where
  "rested i s \<longleftrightarrow> wire s = [] \<and> pending (cl s) = Map.empty \<and>
     got s = length (out (srv (px s))) \<and> pc (px s) = AtLoop \<and>
     length (gos (px s)) = 2 * i \<and> clunkDelay (srv (px s)) = 5000000 \<and>
     m_freed (mgr (cl s)) = [2, 1] \<and>
     fids (srv (px s)) 1 = None \<and> fids (srv (px s)) 2 = None"

section \<open>Package \<^verbatim>\<open>acme\<close>: \<^verbatim>\<open>Mount\<close>\<close>

text \<open>
  \<^verbatim>\<open>*Fsys\<close> values are addresses into a store of \<^verbatim>\<open>Fsys\<close> objects; \<^verbatim>\<open>&Fsys{...}\<close> takes
  the next address. \<open>None\<close> is the nil pointer, and the nil \<^verbatim>\<open>error\<close>. The package
  variables \<^verbatim>\<open>defaultFsys\<close>, \<^verbatim>\<open>defaultErr\<close> and \<^verbatim>\<open>defaultOnce\<close> are declared in a file
  that is not among the sources; they start at Go's zero values. \<open>'c\<close> is what
  \<^verbatim>\<open>Fsys.fs\<close> holds, a \<^verbatim>\<open>*client.Fsys\<close>.
\<close>

type_synonym addr = nat

record 'c Fsys =
  fs :: 'c

record 'c pkg =
  store :: "'c Fsys list"
  defaultFsys :: "addr option"
  defaultErr :: "string option"
  defaultOnce :: bool

definition pkg0 :: "'c pkg" where
  "pkg0 = \<lparr>store = [], defaultFsys = None, defaultErr = None, defaultOnce = False\<rparr>"

definition new_Fsys :: "'c \<Rightarrow> 'c pkg \<Rightarrow> addr \<times> 'c pkg" where
  "new_Fsys c p = (length (store p), p\<lparr>store := store p @ [\<lparr>fs = c\<rparr>]\<rparr>)"

text \<open>\<^verbatim>\<open>sync.Once.Do\<close>, without concurrency: the function runs on the first call only.\<close>

definition once_Do :: "('c pkg \<Rightarrow> 'c pkg) \<Rightarrow> 'c pkg \<Rightarrow> 'c pkg" where
  "once_Do f p = (if defaultOnce p then p else (f p)\<lparr>defaultOnce := True\<rparr>)"

subsection \<open>\<^verbatim>\<open>acme_p9p.go\<close> (not Plan 9)\<close>

text \<open>
  \<^verbatim>\<open>client.MountService\<close> dials; it is not among the sources and is a parameter here:
  a function of the service name and of the state of the world outside, \<open>'e\<close>, that
  returns an error (\<open>Inl\<close>) or a connection, and the world after the call.
\<close>

type_synonym ('c, 'e) dialer = "string \<Rightarrow> 'e \<Rightarrow> (string + 'c) \<times> 'e"

definition Mount_p9p ::
  "('c, 'e) dialer \<Rightarrow> 'c pkg \<times> 'e \<Rightarrow> (addr option \<times> string option) \<times> 'c pkg \<times> 'e" where
  "Mount_p9p MountService pe =
     (case MountService ''acme'' (snd pe) of
        (Inl err, e') \<Rightarrow> ((None, Some err), fst pe, e')
      | (Inr c, e') \<Rightarrow>
          (let (a, p') = new_Fsys c (fst pe) in ((Some a, None), p', e')))"

definition mountAcme_p9p :: "('c, 'e) dialer \<Rightarrow> 'c pkg \<times> 'e \<Rightarrow> 'c pkg \<times> 'e" where
  "mountAcme_p9p MountService pe =
     (case MountService ''acme'' (snd pe) of
        (Inl err, e') \<Rightarrow> ((fst pe)\<lparr>defaultErr := Some err\<rparr>, e')
      | (Inr c, e') \<Rightarrow>
          (let (a, p') = new_Fsys c (fst pe) in (p'\<lparr>defaultFsys := Some a\<rparr>, e')))"

text \<open>
  A dialer that keeps a log: the world is a script of the results still to come and the
  list of the names dialled so far. With it the calls can be counted.
\<close>

record 'c dialnet =
  script :: "(string + 'c) list"
  dialled :: "string list"

definition scripted :: "('c, 'c dialnet) dialer" where
  "scripted name e =
     (case script e of
        [] \<Rightarrow> (Inl ''no service'', e\<lparr>dialled := dialled e @ [name]\<rparr>)
      | r # rs \<Rightarrow> (r, e\<lparr>script := rs, dialled := dialled e @ [name]\<rparr>))"

text \<open>Any dialer, with the names it is called with written to a log beside its world.\<close>

definition logged :: "('c, 'e) dialer \<Rightarrow> ('c, 'e \<times> string list) dialer" where
  "logged d name el = (case d name (fst el) of (r, e') \<Rightarrow> (r, (e', snd el @ [name])))"

subsection \<open>\<^verbatim>\<open>acme_plan9.go\<close>\<close>

record client_Fsys =
  Mtpt :: string

definition mountAcme_plan9 :: "client_Fsys pkg \<Rightarrow> client_Fsys pkg" where
  "mountAcme_plan9 p =
     (let (a, p') = new_Fsys \<lparr>Mtpt = ''/mnt/acme''\<rparr> p in p'\<lparr>defaultFsys := Some a\<rparr>)"

definition Mount_plan9 ::
  "client_Fsys pkg \<Rightarrow> (addr option \<times> string option) \<times> client_Fsys pkg" where
  "Mount_plan9 p = (let p' = once_Do mountAcme_plan9 p in ((defaultFsys p', None), p'))"

text \<open>\<open>n\<close> calls of \<^verbatim>\<open>Mount\<close> one after the other, with what each returned.\<close>

fun Mount_calls ::
  "nat \<Rightarrow> client_Fsys pkg \<Rightarrow> (addr option \<times> string option) list \<times> client_Fsys pkg" where
  "Mount_calls 0 p = ([], p)"
| "Mount_calls (Suc n) p =
     (let (r, p') = Mount_plan9 p; (rs, p'') = Mount_calls n p' in (r # rs, p''))"

section \<open>Properties of the proxy server\<close>

lemmas msg_consts = Tversion_def Rversion_def Tattach_def Rattach_def Rerror_def Tflush_def
  Twalk_def Rwalk_def Topen_def Ropen_def Tread_def Tclunk_def Rclunk_def NOTAG_def
  QTDIR_def QTFILE_def


lemmas serve_defs = serve_read_def serve_version_def serve_attach_def serve_loop_def
  serve_Twalk_def serve_Topen_def serve_Tclunk_def serve_default_def go_delete_def go_send_def
  send_def

subsection \<open>What is sent is never taken back\<close>

lemma step_out_grows: "step w e = Some w' \<Longrightarrow> \<exists>xs. out (srv w') = out (srv w) @ xs"
  by (cases e)
     (auto simp: serve_defs Let_def split: pc.splits option.splits if_splits chan.splits)

lemma run_out_grows: "run w es = Some w' \<Longrightarrow> \<exists>xs. out (srv w') = out (srv w) @ xs"
proof (induction es arbitrary: w)
  case Nil
  then show ?case by simp
next
  case (Cons e es)
  then obtain w1 where s: "step w e = Some w1" and r: "run w1 es = Some w'"
    by (auto split: option.splits)
  from step_out_grows [OF s] Cons.IH [OF r] show ?case by auto
qed

lemma run_returned_silent:
  "run w es = Some w' \<Longrightarrow> pc w = Returned \<Longrightarrow> gos w = [] \<Longrightarrow> out (srv w') = out (srv w)"
proof (induction es arbitrary: w)
  case Nil
  then show ?case by simp
next
  case (Cons e es)
  then obtain w1 where s: "step w e = Some w1" and r: "run w1 es = Some w'"
    by (auto split: option.splits)
  from s Cons.prems(2,3) have "pc w1 = Returned \<and> gos w1 = [] \<and> out (srv w1) = out (srv w)"
    by (cases e) (auto simp: serve_read_def go_delete_def go_send_def split: if_splits)
  with Cons.IH [OF r] show ?case by simp
qed

subsection \<open>The version handshake\<close>

lemma run_first_reply:
  "run w es = Some w' \<Longrightarrow> pc w = AtVersion \<Longrightarrow> gos w = [] \<Longrightarrow> out (srv w) = [] \<Longrightarrow>
   out (srv w') \<noteq> [] \<Longrightarrow>
   \<exists>f. first_read es = Some f \<and>
     hd (out (srv w')) = Fcall0\<lparr>Type := Rversion, Tag := NOTAG, Msize := Msize f, Version := ''9P2000''\<rparr>"
proof (induction es arbitrary: w)
  case Nil
  then show ?case by simp
next
  case (Cons e es)
  then obtain w1 where s: "step w e = Some w1" and r: "run w1 es = Some w'"
    by (auto split: option.splits)
  show ?case
  proof (cases e)
    case (Read x)
    show ?thesis
    proof (cases x)
      case None
      with Read s Cons.prems have "pc w1 = Returned \<and> gos w1 = [] \<and> out (srv w1) = []"
        by (auto simp: serve_read_def)
      with run_returned_silent [OF r] Cons.prems(5) show ?thesis by simp
    next
      case (Some f)
      with Read s Cons.prems have
        "out (srv w1) = [Fcall0\<lparr>Type := Rversion, Tag := NOTAG, Msize := Msize f, Version := ''9P2000''\<rparr>]"
        by (auto simp: serve_read_def serve_version_def send_def)
      with run_out_grows [OF r] Read Some show ?thesis by auto
    qed
  next
    case (Advance d)
    with s Cons.prems have "pc w1 = AtVersion \<and> gos w1 = [] \<and> out (srv w1) = []"
      by (auto split: if_splits)
    with Cons.IH [OF r] Cons.prems(5) Advance show ?thesis by simp
  next
    case (GoDelete i)
    with s Cons.prems show ?thesis by (simp add: go_delete_def)
  next
    case (GoSend i)
    with s Cons.prems show ?thesis by (simp add: go_send_def)
  next
    case MakeClunkSeen
    with s Cons.prems have "pc w1 = AtVersion \<and> gos w1 = [] \<and> out (srv w1) = []"
      by (auto split: if_splits)
    with Cons.IH [OF r] Cons.prems(5) MakeClunkSeen show ?thesis by simp
  qed
qed

lemma run_answers_version:
  "run w es = Some w' \<Longrightarrow> pc w = AtVersion \<Longrightarrow> gos w = [] \<Longrightarrow> out (srv w) = [] \<Longrightarrow>
   first_read es = Some f \<Longrightarrow>
   out (srv w') \<noteq> [] \<and>
   hd (out (srv w')) = Fcall0\<lparr>Type := Rversion, Tag := NOTAG, Msize := Msize f, Version := ''9P2000''\<rparr>"
proof (induction es arbitrary: w)
  case Nil
  then show ?case by simp
next
  case (Cons e es)
  then obtain w1 where s: "step w e = Some w1" and r: "run w1 es = Some w'"
    by (auto split: option.splits)
  show ?case
  proof (cases e)
    case (Read x)
    with Cons.prems(5) have x: "x = Some f" by simp
    with Read s Cons.prems(2,4) have
      "out (srv w1) = [Fcall0\<lparr>Type := Rversion, Tag := NOTAG, Msize := Msize f, Version := ''9P2000''\<rparr>]"
      by (auto simp: serve_read_def serve_version_def send_def)
    with run_out_grows [OF r] show ?thesis by auto
  next
    case (Advance k)
    with s Cons.prems have "pc w1 = AtVersion \<and> gos w1 = [] \<and> out (srv w1) = [] \<and>
        first_read es = Some f"
      by (auto split: if_splits)
    with Cons.IH [OF r] show ?thesis by simp
  next
    case (GoDelete i)
    with s Cons.prems show ?thesis by (simp add: go_delete_def)
  next
    case (GoSend i)
    with s Cons.prems show ?thesis by (simp add: go_send_def)
  next
    case MakeClunkSeen
    with s Cons.prems have "pc w1 = AtVersion \<and> gos w1 = [] \<and> out (srv w1) = [] \<and>
        first_read es = Some f"
      by (auto split: if_splits)
    with Cons.IH [OF r] show ?thesis by simp
  qed
qed

text \<open>
  Claim C7. On a new server, once a run has read a first message (the client's Tversion),
  the server has sent something, and the first message it sent is an Rversion with tag
  NOTAG, with the Msize of that first message and with version string "9P2000". Before
  a message has been read it has sent nothing, so nothing comes before the Rversion.
\<close>

theorem version_handshake:
  assumes "run (new_world d) es = Some w"
  shows "(\<forall>f. first_read es = Some f \<longrightarrow>
            out (srv w) \<noteq> [] \<and>
            hd (out (srv w)) = Fcall0\<lparr>Type := Rversion, Tag := NOTAG, Msize := Msize f,
                                        Version := ''9P2000''\<rparr>) \<and>
         (out (srv w) \<noteq> [] \<longrightarrow> (\<exists>f. first_read es = Some f))"
proof (intro conjI allI impI)
  fix f assume "first_read es = Some f"
  from run_answers_version [OF assms _ _ _ this]
  show "out (srv w) \<noteq> []"
    and "hd (out (srv w)) = Fcall0\<lparr>Type := Rversion, Tag := NOTAG, Msize := Msize f,
                                        Version := ''9P2000''\<rparr>"
    by (simp_all add: new_world_def)
next
  assume "out (srv w) \<noteq> []"
  from run_first_reply [OF assms _ _ _ this]
  show "\<exists>f. first_read es = Some f" by (auto simp: new_world_def)
qed

theorem version_handshake_witness:
  "run (new_world 5000000) [Advance 7, Read (Some tversion0), Read (Some tattach0)] \<noteq> None \<and>
   first_read [Advance 7, Read (Some tversion0), Read (Some tattach0)] = Some tversion0 \<and>
   out (srv (the (run (new_world 5000000)
      [Advance 7, Read (Some tversion0), Read (Some tattach0)]))) \<noteq> [] \<and>
   hd (out (srv (the (run (new_world 5000000)
      [Advance 7, Read (Some tversion0), Read (Some tattach0)])))) =
     Fcall0\<lparr>Type := Rversion, Tag := NOTAG, Msize := 8192, Version := ''9P2000''\<rparr>"
proof -
  let ?es = "[Advance 7, Read (Some tversion0), Read (Some tattach0)]"
  have ne: "run (new_world 5000000) ?es \<noteq> None"
    by (simp add: serve_read_def new_world_def serve_version_def serve_attach_def)
  then have r: "run (new_world 5000000) ?es = Some (the (run (new_world 5000000) ?es))"
    by auto
  have f: "first_read ?es = Some tversion0" by simp
  have m: "Msize tversion0 = 8192" by (simp add: tversion0_def)
  from version_handshake [OF r] f
  have "out (srv (the (run (new_world 5000000) ?es))) \<noteq> [] \<and>
    hd (out (srv (the (run (new_world 5000000) ?es)))) =
      Fcall0\<lparr>Type := Rversion, Tag := NOTAG, Msize := Msize tversion0, Version := ''9P2000''\<rparr>"
    by blast
  with ne f m show ?thesis by simp
qed

subsection \<open>The cases of the loop\<close>



text \<open>
  Claim C5. When a Twalk read in the loop is accepted (newfid is not a duplicate), the
  Rwalk sent for it has as many qids as the request has names, one for each name.
\<close>

theorem walk_response_shape:
  assumes "pc w = AtLoop" and "Type f = Twalk"
    and "\<not> (fids_at (fids (srv w)) (Newfid f) \<and> Newfid f \<noteq> Fid f)"
  shows "\<exists>w' r. step w (Read (Some f)) = Some w' \<and> out (srv w') = out (srv w) @ [r] \<and>
     Type r = Rwalk \<and> length (Wqid r) = length (Wname f) \<and>
     (\<forall>i < length (Wname f). Wqid r ! i = Qid0\<lparr>Qid_Type := QTFILE, Qid_Path := 1\<rparr>)"
  using assms
  by (auto simp add: serve_read_def serve_loop_def serve_Twalk_def send_def Let_def Fcall0_def
      walk_qids_def)

theorem walk_response_shape_witness:
  "pc loop_world = AtLoop \<and> Type (twalk0\<lparr>Newfid := 2\<rparr>) = Twalk \<and>
   \<not> (fids_at (fids (srv loop_world)) (Newfid (twalk0\<lparr>Newfid := 2\<rparr>)) \<and>
      Newfid (twalk0\<lparr>Newfid := 2\<rparr>) \<noteq> Fid (twalk0\<lparr>Newfid := 2\<rparr>)) \<and>
   (\<exists>w' r. step loop_world (Read (Some (twalk0\<lparr>Newfid := 2\<rparr>))) = Some w' \<and>
      out (srv w') = out (srv loop_world) @ [r] \<and> Type r = Rwalk \<and> length (Wqid r) = 1 \<and>
      Wqid r ! 0 = Qid0\<lparr>Qid_Type := QTFILE, Qid_Path := 1\<rparr>)"
proof -
  let ?f = "twalk0\<lparr>Newfid := 2\<rparr>"
  have h1: "pc loop_world = AtLoop" by (simp add: loop_world_def)
  have h2: "Type ?f = Twalk" by (simp add: twalk0_def)
  have h3: "\<not> (fids_at (fids (srv loop_world)) (Newfid ?f) \<and> Newfid ?f \<noteq> Fid ?f)"
    by (simp add: loop_world_def new_world_def fids_at_def)
  have n: "length (Wname ?f) = 1" by (simp add: twalk0_def)
  from walk_response_shape [OF h1 h2 h3] h1 h2 h3 n show ?thesis by auto
qed

text \<open>
  Claim C9. A message read in the loop whose type is not Twalk, Topen or Tclunk is
  answered with an Rerror that carries its tag and the text "not supported"; nothing
  else changes, so the table of live fids is as it was.
\<close>

theorem unsupported_rejected:
  assumes "pc w = AtLoop" and "Type f \<noteq> Twalk" and "Type f \<noteq> Topen" and "Type f \<noteq> Tclunk"
  shows "step w (Read (Some f)) =
     Some (w\<lparr>srv := (srv w)\<lparr>out := out (srv w) @
        [Fcall0\<lparr>Type := Rerror, Tag := Tag f, Ename := ''not supported''\<rparr>]\<rparr>\<rparr>)"
  using assms by (simp add: serve_read_def serve_loop_def serve_default_def send_def)

theorem unsupported_rejected_witness:
  "pc loop_world = AtLoop \<and> Type tread0 \<noteq> Twalk \<and> Type tread0 \<noteq> Topen \<and> Type tread0 \<noteq> Tclunk \<and>
   (\<exists>w'. step loop_world (Read (Some tread0)) = Some w' \<and>
      out (srv w') = [Fcall0\<lparr>Type := Rerror, Tag := 3, Ename := ''not supported''\<rparr>] \<and>
      fids (srv w') = fids (srv loop_world))"
proof -
  have h1: "pc loop_world = AtLoop" by (simp add: loop_world_def)
  have h2: "Type tread0 \<noteq> Twalk" by (simp add: tread0_def msg_consts)
  have h3: "Type tread0 \<noteq> Topen" by (simp add: tread0_def msg_consts)
  have h4: "Type tread0 \<noteq> Tclunk" by (simp add: tread0_def msg_consts)
  have t: "Tag tread0 = 3" by (simp add: tread0_def)
  have o: "out (srv loop_world) = []" by (simp add: loop_world_def new_world_def)
  from unsupported_rejected [OF h1 h2 h3 h4] t o h1 h2 h3 h4 show ?thesis by simp
qed

subsection \<open>Tags held by goroutines\<close>

lemma tags_out_alt: "tags_out w = mset (map Tag (out (srv w))) + gtags (gos w)"
  by (simp add: tags_out_def unsent_def gtags_def)

lemma gtags_Nil: "gtags [] = {#}"
  by (simp add: gtags_def)

lemma gtags_Cons:
  "gtags (g # gs) = (if g_stage g \<noteq> Finished then add_mset (g_tag g) (gtags gs) else gtags gs)"
  by (simp add: gtags_def)

lemma gtags_snoc:
  "gtags (gs @ [g]) = (if g_stage g \<noteq> Finished then add_mset (g_tag g) (gtags gs) else gtags gs)"
  by (simp add: gtags_def)

lemma gtags_update_same:
  assumes "i < length gs" and "g_stage (gs ! i) \<noteq> Finished" and "s \<noteq> Finished"
  shows "gtags (gs[i := (gs ! i)\<lparr>g_stage := s\<rparr>]) = gtags gs"
  using assms
proof (induction gs arbitrary: i)
  case Nil
  then show ?case by simp
next
  case (Cons g gs)
  then show ?case by (cases i) (auto simp: gtags_Cons)
qed

lemma gtags_update_finish:
  assumes "i < length gs" and "g_stage (gs ! i) \<noteq> Finished"
  shows "add_mset (g_tag (gs ! i)) (gtags (gs[i := (gs ! i)\<lparr>g_stage := Finished\<rparr>])) = gtags gs"
  using assms
proof (induction gs arbitrary: i)
  case Nil
  then show ?case by simp
next
  case (Cons g gs)
  then show ?case by (cases i) (auto simp: gtags_Cons)
qed


subsection \<open>Clunks and the delayed acknowledgment\<close>

lemma run_Cons_Some:
  "run w (e # es) = Some w' \<Longrightarrow> \<exists>w1. step w e = Some w1 \<and> run w1 es = Some w'"
  by (auto split: option.splits)



















subsection \<open>Tags\<close>

lemma step_tags:
  assumes "step w e = Some w'" and "pc w \<noteq> AtVersion"
  shows "pc w' \<noteq> AtVersion \<and>
     (if pc w' = Panicked then tags_out w' = tags_out w
      else tags_out w' = tags_out w + mset (map Tag (reads [e])))"
proof (cases e)
  case (Read r)
  with assms show ?thesis
    by (auto simp: tags_out_alt gtags_snoc serve_defs Let_def
        split: pc.splits option.splits if_splits chan.splits)
next
  case (Advance d)
  with assms show ?thesis by (auto simp: tags_out_alt split: if_splits)
next
  case (GoDelete i)
  with assms show ?thesis
    by (auto simp: tags_out_alt go_delete_def Let_def gtags_update_same split: if_splits)
next
  case (GoSend i)
  with assms have i: "i < length (gos w)" and st: "g_stage (gos w ! i) = Deleted"
    and p: "pc w \<noteq> Panicked"
    and w': "w' = w\<lparr>srv := send (srv w) (Fcall0\<lparr>Type := Rclunk, Tag := g_tag (gos w ! i)\<rparr>),
                   gos := (gos w)[i := (gos w ! i)\<lparr>g_stage := Finished\<rparr>]\<rparr>"
    by (auto simp: go_send_def Let_def split: if_splits)
  from st have "g_stage (gos w ! i) \<noteq> Finished" by simp
  from gtags_update_finish [OF i this]
  have "tags_out w' = tags_out w"
    by (simp add: tags_out_alt w' send_def)
  with assms(2) p GoSend show ?thesis by (simp add: w')
next
  case MakeClunkSeen
  with assms show ?thesis by (auto simp: tags_out_alt split: if_splits)
qed

lemma reads_Cons: "reads (e # es) = reads [e] @ reads es"
  by (induction "e # es" rule: reads.induct) auto

lemma run_tags:
  "run w es = Some w' \<Longrightarrow> pc w \<noteq> AtVersion \<Longrightarrow>
   tags_out w' \<subseteq># tags_out w + mset (map Tag (reads es)) \<and>
   (pc w' \<noteq> Panicked \<longrightarrow> tags_out w' = tags_out w + mset (map Tag (reads es)))"
proof (induction es arbitrary: w)
  case Nil
  then show ?case by simp
next
  case (Cons e es)
  from run_Cons_Some [OF Cons.prems(1)] obtain w1
    where s: "step w e = Some w1" and r: "run w1 es = Some w'" by blast
  from step_tags [OF s Cons.prems(2)] have p1: "pc w1 \<noteq> AtVersion"
    and t1: "if pc w1 = Panicked then tags_out w1 = tags_out w
      else tags_out w1 = tags_out w + mset (map Tag (reads [e]))" by simp_all
  show ?case
  proof (cases "pc w1 = Panicked")
    case True
    have "es = []"
    proof (cases es)
      case Nil
      then show ?thesis .
    next
      case (Cons e' es')
      with r True show ?thesis
        by (cases e') (auto simp: serve_defs split: option.splits)
    qed
    with r have "w' = w1" by simp
    with t1 True show ?thesis by (auto split: if_splits)
  next
    case False
    with t1 have "tags_out w1 = tags_out w + mset (map Tag (reads [e]))" by simp
    with Cons.IH [OF r p1] show ?thesis
      by (subst (1 2) reads_Cons) (simp add: ac_simps)
  qed
qed

lemma run_returned_reads:
  "run w es = Some w' \<Longrightarrow> pc w = Returned \<Longrightarrow> gos w = [] \<Longrightarrow> reads es = [] \<and> gos w' = []"
proof (induction es arbitrary: w)
  case Nil
  then show ?case by simp
next
  case (Cons e es)
  from run_Cons_Some [OF Cons.prems(1)] obtain w1
    where s: "step w e = Some w1" and r: "run w1 es = Some w'" by blast
  from s Cons.prems(2,3) have "pc w1 = Returned \<and> gos w1 = [] \<and> reads [e] = []"
    by (cases e) (auto simp: serve_read_def go_delete_def go_send_def split: if_splits)
  with Cons.IH [OF r] show ?case by (subst reads_Cons) simp
qed

lemma run_tags_new:
  "run w0 es = Some w' \<Longrightarrow> pc w0 = AtVersion \<Longrightarrow> gos w0 = [] \<Longrightarrow> out (srv w0) = [] \<Longrightarrow>
   mset (map Tag (tl (out (srv w')))) + mset (map g_tag (unsent w'))
           \<subseteq># mset (map Tag (tl (reads es))) \<and>
         (pc w' \<noteq> Panicked \<longrightarrow>
           mset (map Tag (tl (out (srv w')))) + mset (map g_tag (unsent w'))
             = mset (map Tag (tl (reads es))))"
proof (induction es arbitrary: w0)
  case Nil
  then show ?case by (simp add: unsent_def)
next
  case (Cons e es)
  from run_Cons_Some [OF Cons.prems(1)] obtain w1
    where s: "step w0 e = Some w1" and r: "run w1 es = Some w'" by blast
  show ?case
  proof (cases e)
    case (Read x)
    show ?thesis
    proof (cases x)
      case None
      with Read s Cons.prems have w1: "pc w1 = Returned" "gos w1 = []" "out (srv w1) = []"
        by (auto simp: serve_read_def)
      from run_returned_silent [OF r w1(1,2)] w1(3) have "out (srv w') = []" by simp
      moreover from run_returned_reads [OF r w1(1,2)] have "reads es = []" "gos w' = []"
        by simp_all
      ultimately show ?thesis using Read None by (simp add: unsent_def)
    next
      case (Some f)
      let ?rv = "Fcall0\<lparr>Type := Rversion, Tag := NOTAG, Msize := Msize f, Version := ''9P2000''\<rparr>"
      from Some Read s Cons.prems have w1: "pc w1 = AtAttach" "gos w1 = []" "out (srv w1) = [?rv]"
        by (auto simp: serve_read_def serve_version_def send_def)
      then have t1: "tags_out w1 = {#NOTAG#}" by (simp add: tags_out_alt gtags_Nil)
      from w1 have p1: "pc w1 \<noteq> AtVersion" by simp
      from run_out_grows [OF r] w1(3) obtain xs where xs: "out (srv w') = ?rv # xs" by auto
      then have t': "tags_out w' = add_mset NOTAG (mset (map Tag (tl (out (srv w')))) + mset (map g_tag (unsent w')))"
        by (simp add: tags_out_def)
      from Read Some have rd: "tl (reads (e # es)) = reads es" by simp
      from run_tags [OF r p1] show ?thesis unfolding t1 t' rd by simp
    qed
  next
    case (Advance d)
    with s Cons.prems have "pc w1 = AtVersion \<and> gos w1 = [] \<and> out (srv w1) = []"
      by (auto split: if_splits)
    with Cons.IH [OF r] Advance show ?thesis by simp
  next
    case (GoDelete i)
    with s Cons.prems show ?thesis by (simp add: go_delete_def)
  next
    case (GoSend i)
    with s Cons.prems show ?thesis by (simp add: go_send_def)
  next
    case MakeClunkSeen
    with s Cons.prems have "pc w1 = AtVersion \<and> gos w1 = [] \<and> out (srv w1) = []"
      by (auto split: if_splits)
    with Cons.IH [OF r] MakeClunkSeen show ?thesis by simp
  qed
qed

lemma run_session:
  "run (new_world 5000000) session =
     Some \<lparr>srv = \<lparr>out = [Fcall0\<lparr>Type := Rversion, Tag := NOTAG, Msize := 8192, Version := ''9P2000''\<rparr>,
                          Fcall0\<lparr>Type := Rattach, Tag := 1, Qid := Qid0\<lparr>Qid_Type := QTDIR\<rparr>\<rparr>,
                          Fcall0\<lparr>Type := Rwalk, Tag := 1, Wqid := [Qid0\<lparr>Qid_Type := QTFILE, Qid_Path := 1\<rparr>]\<rparr>,
                          Fcall0\<lparr>Type := Rerror, Tag := 3, Ename := ''not supported''\<rparr>,
                          Fcall0\<lparr>Type := Rclunk, Tag := 2\<rparr>],
                   fids = [0 \<mapsto> True], clunkDelay = 5000000, clunkSeen = ChanClosed\<rparr>,
            pc = AtLoop,
            gos = [\<lparr>g_tag = 2, g_fid = 1, g_since = 0, g_stage = Finished\<rparr>],
            now = 5000000\<rparr>"
  by (simp add: session_def new_world_def tversion0_def tattach0_def twalk0_def tclunk0_def
      tread0_def serve_defs msg_consts fids_at_def Let_def walk_qids_def Fcall0_def fun_upd_twist)

text \<open>
  Claim C4. A request read after the Tversion is answered under its own tag: the read
  either sends one response that carries the request's tag, or (for a Tclunk) starts a
  goroutine that holds the request's tag, or panics; and a goroutine's send is an Rclunk
  with the tag it holds. Over every run of a new server, the tags of the responses sent
  after the Rversion, together with the tags held by the goroutines that have still to
  send, are among the tags of the requests read after the Tversion, each as often as it
  was read, and unless the server has panicked they are exactly those tags. So a client
  that matches responses to callers by tag hands each response to the caller of the
  request it answers.
\<close>

theorem tags_preserved:
  "(run (new_world d) es = Some w \<longrightarrow>
      mset (map Tag (tl (out (srv w)))) + mset (map g_tag (unsent w))
        \<subseteq># mset (map Tag (tl (reads es))) \<and>
      (pc w \<noteq> Panicked \<longrightarrow>
        mset (map Tag (tl (out (srv w)))) + mset (map g_tag (unsent w))
          = mset (map Tag (tl (reads es))))) \<and>
   ((pc v = AtAttach \<or> pc v = AtLoop) \<and> step v (Read (Some f)) = Some v' \<longrightarrow>
      (\<exists>r. out (srv v') = out (srv v) @ [r] \<and> Tag r = Tag f \<and> gos v' = gos v) \<or>
      (\<exists>g. gos v' = gos v @ [g] \<and> g_tag g = Tag f \<and> g_stage g = Sleeping \<and>
           out (srv v') = out (srv v)) \<or>
      (pc v' = Panicked \<and> out (srv v') = out (srv v) \<and> gos v' = gos v)) \<and>
   (step v (GoSend i) = Some v' \<longrightarrow>
      out (srv v') = out (srv v) @ [Fcall0\<lparr>Type := Rclunk, Tag := g_tag (gos v ! i)\<rparr>])"
proof -
  have a: "mset (map Tag (tl (out (srv w)))) + mset (map g_tag (unsent w))
        \<subseteq># mset (map Tag (tl (reads es))) \<and>
      (pc w \<noteq> Panicked \<longrightarrow>
        mset (map Tag (tl (out (srv w)))) + mset (map g_tag (unsent w))
          = mset (map Tag (tl (reads es))))"
    if "run (new_world d) es = Some w"
    using run_tags_new [OF that] by (simp add: new_world_def)
  have b: "(\<exists>r. out (srv v') = out (srv v) @ [r] \<and> Tag r = Tag f \<and> gos v' = gos v) \<or>
      (\<exists>g. gos v' = gos v @ [g] \<and> g_tag g = Tag f \<and> g_stage g = Sleeping \<and>
           out (srv v') = out (srv v)) \<or>
      (pc v' = Panicked \<and> out (srv v') = out (srv v) \<and> gos v' = gos v)"
    if h: "(pc v = AtAttach \<or> pc v = AtLoop) \<and> step v (Read (Some f)) = Some v'"
  proof -
    from h consider (att) "v' = serve_attach v f" | (walk) "v' = serve_Twalk v f"
      | (opn) "v' = serve_Topen v f" | (clunk) "v' = serve_Tclunk v f"
      | (other) "v' = serve_default v f"
      by (auto simp: serve_read_def serve_loop_def split: if_splits)
    then show ?thesis
    proof cases
      case att
      then show ?thesis by (simp add: serve_attach_def send_def)
    next
      case walk
      then show ?thesis by (simp add: serve_Twalk_def send_def Let_def)
    next
      case opn
      then show ?thesis by (simp add: serve_Topen_def send_def)
    next
      case clunk
      then show ?thesis by (cases "clunkSeen (srv v)") (simp_all add: serve_Tclunk_def)
    next
      case other
      then show ?thesis by (simp add: serve_default_def send_def)
    qed
  qed
  have c: "out (srv v') = out (srv v) @ [Fcall0\<lparr>Type := Rclunk, Tag := g_tag (gos v ! i)\<rparr>]"
    if "step v (GoSend i) = Some v'"
    using that by (auto simp: go_send_def send_def Let_def split: if_splits)
  from a b c show ?thesis by blast
qed

theorem tags_preserved_witness:
  "run (new_world 5000000) session \<noteq> None \<and>
   pc (the (run (new_world 5000000) session)) \<noteq> Panicked \<and>
   mset (map Tag (tl (out (srv (the (run (new_world 5000000) session)))))) +
     mset (map g_tag (unsent (the (run (new_world 5000000) session)))) = {#1, 1, 2, 3#} \<and>
   mset (map Tag (tl (reads session))) = {#1, 1, 2, 3#} \<and>
   pc loop_world = AtLoop \<and>
   step loop_world (Read (Some tread0)) = Some (serve_default loop_world tread0) \<and>
   Tag (last (out (srv (serve_default loop_world tread0)))) = Tag tread0"
proof -
  have r: "run (new_world 5000000) session = Some (the (run (new_world 5000000) session))"
    by (simp add: run_session)
  have p: "pc (the (run (new_world 5000000) session)) \<noteq> Panicked"
    by (simp add: run_session)
  have t: "mset (map Tag (tl (reads session))) = {#1, 1, 2, 3#}"
    by (simp add: session_def tversion0_def tattach0_def twalk0_def tclunk0_def tread0_def)
  have ne: "run (new_world 5000000) session \<noteq> None"
    by (simp add: run_session)
  have l: "pc loop_world = AtLoop" by (simp add: loop_world_def)
  have g: "gos loop_world = []" by (simp add: loop_world_def new_world_def)
  have s: "step loop_world (Read (Some tread0)) = Some (serve_default loop_world tread0)"
    by (simp add: serve_read_def serve_loop_def l tread0_def msg_consts)
  note inst = tags_preserved [of 5000000 session "the (run (new_world 5000000) session)"
      loop_world tread0 "serve_default loop_world tread0"]
  from inst r p
  have eq: "mset (map Tag (tl (out (srv (the (run (new_world 5000000) session)))))) +
     mset (map g_tag (unsent (the (run (new_world 5000000) session)))) =
     mset (map Tag (tl (reads session)))"
    by blast
  have "gos (serve_default loop_world tread0) = []" "pc (serve_default loop_world tread0) = AtLoop"
    by (simp_all add: serve_default_def g l)
  with inst l s
  have "\<exists>r. out (srv (serve_default loop_world tread0)) = out (srv loop_world) @ [r] \<and>
      Tag r = Tag tread0"
    by auto
  then have lt: "Tag (last (out (srv (serve_default loop_world tread0)))) = Tag tread0"
    by auto
  from ne p eq t l s lt show ?thesis by auto
qed

section \<open>Properties of \<^verbatim>\<open>Mount\<close>\<close>

text \<open>
  Claim C8. For any dialer, one call of \<^verbatim>\<open>Mount\<close> calls \<^verbatim>\<open>MountService\<close> once, with the
  name "acme": the log of calls grows by that one entry and the world is the one after
  that single call. If the dial fails, \<^verbatim>\<open>Mount\<close> returns a nil \<^verbatim>\<open>Fsys\<close> and that error and
  leaves the package state, \<^verbatim>\<open>defaultFsys\<close> included, alone; if it succeeds, the result is
  a new \<^verbatim>\<open>Fsys\<close> around the connection just dialled.
\<close>

theorem Mount_p9p_dials_once:
  "Mount_p9p (logged d) (p, (e, log)) =
     (case d ''acme'' e of
        (Inl err, e') \<Rightarrow> ((None, Some err), p, (e', log @ [''acme'']))
      | (Inr c, e') \<Rightarrow>
          ((Some (length (store p)), None), p\<lparr>store := store p @ [\<lparr>fs = c\<rparr>]\<rparr>,
           (e', log @ [''acme''])))"
  by (simp add: Mount_p9p_def logged_def new_Fsys_def split: prod.splits sum.splits)

text \<open>
  An example: a default \<^verbatim>\<open>Fsys\<close> exists, the next dial fails and the one after it would
  succeed. \<^verbatim>\<open>Mount\<close> returns nil and the error, and the second result is still to come.
\<close>

lemma Mount_p9p_no_retry_example:
  "Mount_p9p scripted (pkg0\<lparr>store := [\<lparr>fs = c0\<rparr>], defaultFsys := Some 0\<rparr>,
      \<lparr>script = [Inl ''connection refused'', Inr c1], dialled = []\<rparr>) =
   ((None, Some ''connection refused''), pkg0\<lparr>store := [\<lparr>fs = c0\<rparr>], defaultFsys := Some 0\<rparr>,
      \<lparr>script = [Inr c1], dialled = [''acme'']\<rparr>)"
  by (simp add: Mount_p9p_def scripted_def)

lemma Mount_calls_done:
  "defaultOnce p \<Longrightarrow> Mount_calls n p = (replicate n (defaultFsys p, None), p)"
  by (induction n) (simp_all add: Mount_plan9_def once_Do_def)

text \<open>
  Claim C10. On Plan 9, \<open>n\<close> calls of \<^verbatim>\<open>Mount\<close> from the initial package state all return
  the nil error and the same non-nil \<^verbatim>\<open>Fsys\<close>, the one at address 0, whose mount point is
  "/mnt/acme"; after them the store holds that one object, made by the first call.
\<close>

theorem Mount_plan9_always:
  "Mount_calls n pkg0 =
     (replicate n (Some 0, None),
      if n = 0 then pkg0
      else \<lparr>store = [\<lparr>fs = \<lparr>Mtpt = ''/mnt/acme''\<rparr>\<rparr>], defaultFsys = Some 0,
            defaultErr = None, defaultOnce = True\<rparr>)"
proof (cases n)
  case 0
  then show ?thesis by simp
next
  case (Suc m)
  let ?p = "\<lparr>store = [\<lparr>fs = \<lparr>Mtpt = ''/mnt/acme''\<rparr>\<rparr>], defaultFsys = Some 0,
            defaultErr = None, defaultOnce = True\<rparr>"
  have 1: "Mount_plan9 pkg0 = ((Some 0, None), ?p)"
    by (simp add: Mount_plan9_def once_Do_def mountAcme_plan9_def new_Fsys_def pkg0_def)
  have "Mount_calls m ?p = (replicate m (Some 0, None), ?p)"
    using Mount_calls_done [of ?p m] by simp
  with 1 Suc show ?thesis by simp
qed

section \<open>Properties of the fid lifecycle\<close>

lemmas mgr_defs = allocate_def markActive_def beginRetire_def confirmRetire_def release_def

lemma mgr_wf_mgr0: "mgr_wf mgr0"
  by (simp add: mgr_wf_def mgr0_def)

lemma unat_of_nat_fid: "k < unat NOFID \<Longrightarrow> unat (of_nat k :: uint32) = k"
  by (simp add: NOFID_def unat_of_nat)

lemma allocate_wf:
  assumes "mgr_wf m" and "allocate c m = Inr (n, m')"
  shows "mgr_wf m' \<and> \<not> live m n \<and> m_state m' = (m_state m)(n \<mapsto> Allocated)"
proof (cases "m_freed m = []")
  case True
  with assms(2) have k: "m_next m < unat NOFID" and n: "n = of_nat (m_next m)"
    and m': "m' = m\<lparr>m_state := (m_state m)(n \<mapsto> Allocated), m_next := Suc (m_next m)\<rparr>"
    by (auto simp: allocate_def split: if_splits)
  from k n have u: "unat n = m_next m" by (simp add: unat_of_nat_fid)
  with assms(1) have fresh: "m_state m n = None" by (auto simp: mgr_wf_def)
  from assms(1) True k u have "mgr_wf m'"
    by (auto simp: mgr_wf_def m' less_Suc_eq)
  with fresh m' show ?thesis by (simp add: live_def)
next
  case False
  with assms(2) have n: "n = m_freed m ! (c mod length (m_freed m))"
    and m': "m' = m\<lparr>m_state := (m_state m)(n \<mapsto> Allocated), m_freed := remove1 n (m_freed m)\<rparr>"
    by (auto simp: allocate_def Let_def split: if_splits)
  from False n have mem: "n \<in> set (m_freed m)" by simp
  with assms(1) have fr: "m_state m n = Some Free" by (simp add: mgr_wf_def)
  have "mgr_wf m'"
    using assms(1) mem fr unfolding mgr_wf_def m'
    by (auto simp: distinct_remove1 dest: notin_set_remove1)
  with fr m' show ?thesis by (simp add: live_def)
qed

lemma apply_op_wf: "mgr_wf m \<Longrightarrow> mgr_wf (fst (apply_op m x))"
proof (cases x)
  case (Allocate c)
  assume "mgr_wf m"
  with Allocate allocate_wf [of m c] show ?thesis
    by (auto split: sum.splits)
next
  case (MarkActive n)
  assume "mgr_wf m"
  with MarkActive show ?thesis
    by (auto simp: markActive_def mgr_wf_def split: if_splits)
next
  case (BeginRetire n)
  assume "mgr_wf m"
  with BeginRetire show ?thesis
    by (auto simp: beginRetire_def mgr_wf_def split: if_splits)
next
  case (ConfirmRetire n)
  assume "mgr_wf m"
  with ConfirmRetire show ?thesis
    by (auto simp: confirmRetire_def mgr_wf_def split: if_splits)
next
  case (Release n)
  assume "mgr_wf m"
  with Release show ?thesis
    by (auto simp: release_def mgr_wf_def split: if_splits)
qed

lemma exec_wf: "mgr_wf m \<Longrightarrow> mgr_wf (exec m xs)"
  by (induction xs arbitrary: m) (simp_all add: apply_op_wf)

lemma trace_split:
  "trace m xs = A @ B \<Longrightarrow>
   \<exists>ys zs. xs = ys @ zs \<and> trace m ys = A \<and> trace (exec m ys) zs = B"
proof (induction A arbitrary: m xs)
  case Nil
  then show ?case by (intro exI [of _ "[]"] exI [of _ xs]) simp
next
  case (Cons a A)
  then obtain x xs' where xs: "xs = x # xs'" by (cases xs) auto
  with Cons.prems have a: "a = (x, snd (apply_op m x))"
    and t: "trace (fst (apply_op m x)) xs' = A @ B" by simp_all
  from Cons.IH [OF t] obtain ys zs where "xs' = ys @ zs"
    "trace (fst (apply_op m x)) ys = A" "trace (exec (fst (apply_op m x)) ys) zs = B" by blast
  with xs a show ?case by (intro exI [of _ "x # ys"] exI [of _ zs]) simp
qed

text \<open>A retiring fid stays retiring until its retirement is confirmed.\<close>

lemma apply_op_retiring:
  assumes "m_state m n = Some Retiring" and "mgr_wf m"
    and "(x, snd (apply_op m x)) \<noteq> (ConfirmRetire n, Done)"
  shows "m_state (fst (apply_op m x)) n = Some Retiring"
proof (cases x)
  case (Allocate c)
  show ?thesis
  proof (cases "allocate c m")
    case (Inl e)
    with Allocate assms(1) show ?thesis by simp
  next
    case (Inr p)
    then obtain n' m' where p: "allocate c m = Inr (n', m')" by (cases p) auto
    from allocate_wf [OF assms(2) p] assms(1) have "n' \<noteq> n" "m_state m' n = m_state m n"
      by (auto simp: live_def)
    with Allocate p assms(1) show ?thesis by simp
  qed
next
  case (MarkActive k)
  with assms show ?thesis by (auto simp: markActive_def)
next
  case (BeginRetire k)
  with assms show ?thesis by (auto simp: beginRetire_def)
next
  case (ConfirmRetire k)
  with assms show ?thesis by (auto simp: confirmRetire_def split: if_splits)
next
  case (Release k)
  with assms show ?thesis by (auto simp: release_def)
qed

lemma exec_retiring:
  "m_state m n = Some Retiring \<Longrightarrow> mgr_wf m \<Longrightarrow> (ConfirmRetire n, Done) \<notin> set (trace m xs) \<Longrightarrow>
   m_state (exec m xs) n = Some Retiring"
proof (induction xs arbitrary: m)
  case Nil
  then show ?case by simp
next
  case (Cons x xs)
  from Cons.prems(3) have ne: "(x, snd (apply_op m x)) \<noteq> (ConfirmRetire n, Done)"
    and rest: "(ConfirmRetire n, Done) \<notin> set (trace (fst (apply_op m x)) xs)" by auto
  from apply_op_retiring [OF Cons.prems(1,2) ne] apply_op_wf [OF Cons.prems(2)] rest
  show ?case by (simp add: Cons.IH)
qed

lemma no_reuse_before_ack:
  assumes "trace mgr0 ops = pre @ (BeginRetire n, Done) # mid @ (Allocate c, Gave n) # post"
  shows "(ConfirmRetire n, Done) \<in> set mid"
proof (rule ccontr)
  assume no: "(ConfirmRetire n, Done) \<notin> set mid"
  from trace_split [OF assms] obtain o1 r1 where "ops = o1 @ r1" and "trace mgr0 o1 = pre"
    and t1: "trace (exec mgr0 o1) r1 = (BeginRetire n, Done) # mid @ (Allocate c, Gave n) # post"
    by blast
  let ?m1 = "exec mgr0 o1"
  have wf1: "mgr_wf ?m1" by (simp add: exec_wf mgr_wf_mgr0)
  from t1 obtain r2 where r1: "r1 = BeginRetire n # r2" by (cases r1) auto
  let ?m2 = "fst (apply_op ?m1 (BeginRetire n))"
  from t1 r1 have d: "snd (apply_op ?m1 (BeginRetire n)) = Done"
    and t2: "trace ?m2 r2 = mid @ (Allocate c, Gave n) # post" by simp_all
  from d have st2: "m_state ?m2 n = Some Retiring"
    by (auto simp: beginRetire_def split: if_splits)
  have wf2: "mgr_wf ?m2" using wf1 by (rule apply_op_wf)
  from trace_split [OF t2] obtain o2 r3 where "trace ?m2 o2 = mid"
    and t3: "trace (exec ?m2 o2) r3 = (Allocate c, Gave n) # post" by blast
  let ?m3 = "exec ?m2 o2"
  from exec_retiring [OF st2 wf2] no \<open>trace ?m2 o2 = mid\<close>
  have st3: "m_state ?m3 n = Some Retiring" by simp
  have wf3: "mgr_wf ?m3" using wf2 by (rule exec_wf)
  from t3 obtain r4 where "r3 = Allocate c # r4" by (cases r3) auto
  with t3 have "snd (apply_op ?m3 (Allocate c)) = Gave n" by simp
  then obtain m' where "allocate c ?m3 = Inr (n, m')"
    by (auto split: sum.splits)
  from allocate_wf [OF wf3 this] st3 show False by (simp add: live_def)
qed

section \<open>The client against the proxy\<close>

lemmas inv_defs = inv_px_def inv_live_def inv_wire_def inv_gos_def inv_resp_def inv_pend_def

lemma tokens_mset:
  "mset (tokens s) = mset (map Tag (wire s)) + gtags (gos (px s)) + mset (map Tag (inflight s))"
  by (simp add: tokens_def gtags_def unsent_def)

lemma asked_Some: "asked p q \<Longrightarrow> p \<noteq> None"
  by (cases p) auto

lemma asked_cases:
  assumes "asked p q"
  shows "(Type q = Twalk \<and> p = Some (WWalk (Newfid q))) \<or>
     (Type q = Topen \<and> p = Some (WOpen (Fid q))) \<or>
     (Type q = Tclunk \<and> p = Some (WClunk (Fid q)))"
proof (cases p)
  case None
  with assms show ?thesis by simp
next
  case (Some k)
  with assms show ?thesis by (cases k) auto
qed

lemma asked_Twalk: "asked p q \<Longrightarrow> Type q = Twalk \<Longrightarrow> p = Some (WWalk (Newfid q))"
  by (drule asked_cases) (auto simp: msg_consts)

lemma answers_Some: "answers p r \<Longrightarrow> p \<noteq> None"
  by (cases p) auto

text \<open>The client waits under every tag that is on its way.\<close>

lemma token_pending:
  assumes "inv_wire s" and "inv_gos s" and "inv_resp s" and "t \<in> set (tokens s)"
  shows "pending (cl s) t \<noteq> None"
  using assms
  by (auto simp: tokens_def inv_wire_def inv_gos_def inv_resp_def dest: asked_Some answers_Some)

lemma distinct_add_token:
  assumes "distinct ts" and "t \<notin> set ts" and "mset ts' = add_mset t (mset ts)"
  shows "distinct ts'"
proof -
  from assms(3) have "mset ts' = mset (t # ts)" by simp
  from mset_eq_imp_distinct_iff [OF this] assms(1,2) show ?thesis by simp
qed

lemma distinct_drop_token:
  assumes "distinct ts" and "mset ts = add_mset t (mset ts')"
  shows "distinct ts' \<and> t \<notin> set ts'"
proof -
  from assms(2) have "mset ts = mset (t # ts')" by simp
  from mset_eq_imp_distinct_iff [OF this] assms(1) show ?thesis by simp
qed

lemma distinct_same_tokens:
  assumes "distinct ts" and "mset ts' = mset ts"
  shows "distinct ts'"
  using mset_eq_imp_distinct_iff [OF assms(2)] assms(1) by simp

subsection \<open>The client's calls\<close>

lemma inv_c_walk:
  assumes i: "inv s" and e: "c_walk tag c src names s = Some s'"
  shows "inv s'"
proof -
  from i have wf: "mgr_wf (mgr (cl s))" and ipx: "inv_px s" and il: "inv_live s"
    and iw: "inv_wire s" and ig: "inv_gos s" and ir: "inv_resp s" and d: "distinct (tokens s)"
    and ip: "inv_pend s" and nd: "dup_rejections s = 0"
    by (simp_all add: inv_def)
  from e obtain n m' where fresh: "pending (cl s) tag = None"
    and al: "allocate c (mgr (cl s)) = Inr (n, m')"
    and s': "s' = s\<lparr>cl := (cl s)\<lparr>mgr := m', pending := (pending (cl s))(tag \<mapsto> WWalk n)\<rparr>,
                  wire := wire s @ [Fcall0\<lparr>Type := Twalk, Tag := tag, Fid := src, Newfid := n,
                                      Wname := names\<rparr>]\<rparr>"
    by (auto simp: c_walk_def split: if_splits sum.splits)
  from allocate_wf [OF wf al] have wf': "mgr_wf m'" and nl: "\<not> live (mgr (cl s)) n"
    and st': "m_state m' = (m_state (mgr (cl s)))(n \<mapsto> Allocated)" by simp_all
  from token_pending [OF iw ig ir, of tag] fresh have nt: "tag \<notin> set (tokens s)" by auto
  have 1: "inv_px s'" using ipx by (simp add: inv_px_def s')
  have 2: "inv_live s'" using il nl by (auto simp: inv_live_def s' live_def st')
  from il nl have nf: "\<not> fids_at (fids (srv (px s))) n" by (auto simp: inv_live_def)
  have 3: "inv_wire s'"
    using iw fresh nf by (auto simp: inv_wire_def s' dest: asked_Some)
  have 4: "inv_gos s'"
    using ig fresh by (auto simp: inv_gos_def s')
  have 5: "inv_resp s'"
    using ir fresh by (auto simp: inv_resp_def s' inflight_def dest: answers_Some)
  have "mset (tokens s') = add_mset tag (mset (tokens s))"
    by (simp add: tokens_def s' inflight_def)
  from distinct_add_token [OF d nt this] have 6: "distinct (tokens s')" .
  have 7: "inv_pend s'"
    using ip fresh nl unfolding inv_pend_def s' by (auto simp: st' live_def)
  have 8: "dup_rejections s' = 0" using nd by (simp add: dup_rejections_def s')
  from wf' 1 2 3 4 5 6 7 8 show ?thesis by (simp add: inv_def s')
qed


lemma inv_c_open:
  assumes i: "inv s" and e: "c_open tag f s = Some s'"
  shows "inv s'"
proof -
  from i have wf: "mgr_wf (mgr (cl s))" and ipx: "inv_px s" and il: "inv_live s"
    and iw: "inv_wire s" and ig: "inv_gos s" and ir: "inv_resp s" and d: "distinct (tokens s)"
    and ip: "inv_pend s" and nd: "dup_rejections s = 0"
    by (simp_all add: inv_def)
  from e have fresh: "pending (cl s) tag = None"
    and s': "s' = s\<lparr>cl := (cl s)\<lparr>pending := (pending (cl s))(tag \<mapsto> WOpen f)\<rparr>,
                   wire := wire s @ [Fcall0\<lparr>Type := Topen, Tag := tag, Fid := f\<rparr>]\<rparr>"
    by (auto simp: c_open_def split: if_splits)
  from token_pending [OF iw ig ir, of tag] fresh have nt: "tag \<notin> set (tokens s)" by auto
  have 1: "inv_px s'" using ipx by (simp add: inv_px_def s')
  have 2: "inv_live s'" using il by (auto simp: inv_live_def s' live_def)
  have 3: "inv_wire s'"
    using iw fresh by (auto simp: inv_wire_def s' msg_consts dest: asked_Some)
  have 4: "inv_gos s'"
    using ig fresh by (auto simp: inv_gos_def s')
  have 5: "inv_resp s'"
    using ir fresh by (auto simp: inv_resp_def s' inflight_def dest: answers_Some)
  have "mset (tokens s') = add_mset tag (mset (tokens s))"
    by (simp add: tokens_def s' inflight_def)
  from distinct_add_token [OF d nt this] have 6: "distinct (tokens s')" .
  have 7: "inv_pend s'"
    using ip fresh unfolding inv_pend_def s' by auto
  have 8: "dup_rejections s' = 0" using nd by (simp add: dup_rejections_def s')
  from wf 1 2 3 4 5 6 7 8 show ?thesis by (simp add: inv_def s')
qed

lemma inv_c_close:
  assumes i: "inv s" and e: "c_close tag f s = Some s'"
  shows "inv s'"
proof -
  from i have wf: "mgr_wf (mgr (cl s))" and ipx: "inv_px s" and il: "inv_live s"
    and iw: "inv_wire s" and ig: "inv_gos s" and ir: "inv_resp s" and d: "distinct (tokens s)"
    and ip: "inv_pend s" and nd: "dup_rejections s = 0"
    by (simp_all add: inv_def)
  from e obtain m' where fresh: "pending (cl s) tag = None"
    and br: "beginRetire f (mgr (cl s)) = Inr m'"
    and s': "s' = s\<lparr>cl := (cl s)\<lparr>mgr := m', pending := (pending (cl s))(tag \<mapsto> WClunk f)\<rparr>,
                  wire := wire s @ [Fcall0\<lparr>Type := Tclunk, Tag := tag, Fid := f\<rparr>]\<rparr>"
    by (auto simp: c_close_def split: if_splits sum.splits)
  from br have act: "m_state (mgr (cl s)) f = Some Active"
    and m': "m' = (mgr (cl s))\<lparr>m_state := (m_state (mgr (cl s)))(f \<mapsto> Retiring)\<rparr>"
    by (auto simp: beginRetire_def split: if_splits)
  from token_pending [OF iw ig ir, of tag] fresh have nt: "tag \<notin> set (tokens s)" by auto
  have 0: "mgr_wf m'" using wf act by (auto simp: mgr_wf_def m')
  have 1: "inv_px s'" using ipx by (simp add: inv_px_def s')
  have 2: "inv_live s'" using il by (auto simp: inv_live_def s' live_def m')
  have 3: "inv_wire s'"
    using iw fresh by (auto simp: inv_wire_def s' msg_consts dest: asked_Some)
  have 4: "inv_gos s'"
    using ig fresh by (auto simp: inv_gos_def s')
  have 5: "inv_resp s'"
    using ir fresh by (auto simp: inv_resp_def s' inflight_def dest: answers_Some)
  have "mset (tokens s') = add_mset tag (mset (tokens s))"
    by (simp add: tokens_def s' inflight_def)
  from distinct_add_token [OF d nt this] have 6: "distinct (tokens s')" .
  have 7: "inv_pend s'"
    using ip fresh act unfolding inv_pend_def s' by (auto simp: m')
  have 8: "dup_rejections s' = 0" using nd by (simp add: dup_rejections_def s')
  from 0 1 2 3 4 5 6 7 8 show ?thesis by (simp add: inv_def s')
qed


subsection \<open>The client's reader\<close>

lemma inv_c_recv:
  assumes i: "inv s" and e: "c_recv s = Some s'"
  shows "inv s'"
proof -
  from i have wf: "mgr_wf (mgr (cl s))" and ipx: "inv_px s" and il: "inv_live s"
    and iw: "inv_wire s" and ig: "inv_gos s" and ir: "inv_resp s" and d: "distinct (tokens s)"
    and ip: "inv_pend s" and nd: "dup_rejections s = 0"
    by (simp_all add: inv_def)
  define r where "r = out (srv (px s)) ! got s"
  from e obtain k where g: "got s < length (out (srv (px s)))"
    and pk: "pending (cl s) (Tag r) = Some k"
    and s': "s' = s\<lparr>cl := (cl s)\<lparr>mgr := deliver k r (mgr (cl s)),
                                  pending := (pending (cl s))(Tag r := None)\<rparr>,
                     got := Suc (got s)\<rparr>"
    by (auto simp: c_recv_def Let_def r_def split: if_splits option.splits)
  from g have fl: "inflight s = r # inflight s'"
    by (simp add: inflight_def s' r_def Cons_nth_drop_Suc)
  then have "mset (tokens s) = add_mset (Tag r) (mset (tokens s'))"
    by (simp add: tokens_def s')
  from distinct_drop_token [OF d this] have 6: "distinct (tokens s')"
    and nt: "Tag r \<notin> set (tokens s')" by simp_all
  have same: "wire s' = wire s" "px s' = px s" by (simp_all add: s')
  from nt have nt': "Tag r \<notin> Tag ` set (wire s) \<union> g_tag ` set (unsent (px s)) \<union>
      Tag ` set (inflight s')"
    unfolding tokens_def same by simp
  from nt' have nw: "\<forall>q \<in> set (wire s). Tag q \<noteq> Tag r" by (auto simp: image_iff)
  from nt' have ng: "\<forall>g \<in> set (unsent (px s)). g_tag g \<noteq> Tag r" by (auto simp: image_iff)
  from nt' have nr: "\<forall>x \<in> set (inflight s'). Tag x \<noteq> Tag r" by (auto simp: image_iff)
  from ir fl pk have an: "answers (Some k) r"
    and cf: "\<And>n. k = WClunk n \<Longrightarrow> \<not> fids_at (fids (srv (px s))) n"
    by (auto simp: inv_resp_def)
  have 1: "inv_px s'" using ipx g by (simp add: inv_px_def s')
  have 3: "inv_wire s'" using iw nw by (auto simp: inv_wire_def s')
  have 4: "inv_gos s'" using ig ng by (auto simp: inv_gos_def s')
  have sub: "set (inflight s') \<subseteq> set (inflight s)" using fl by auto
  have 5: "inv_resp s'"
    unfolding inv_resp_def
  proof
    fix x assume x: "x \<in> set (inflight s')"
    with nr have "Tag x \<noteq> Tag r" by simp
    moreover from x sub ir have "answers (pending (cl s) (Tag x)) x \<and>
        (\<forall>n. pending (cl s) (Tag x) = Some (WClunk n) \<longrightarrow> \<not> fids_at (fids (srv (px s))) n)"
      by (auto simp: inv_resp_def)
    ultimately show "answers (pending (cl s') (Tag x)) x \<and>
        (\<forall>n. pending (cl s') (Tag x) = Some (WClunk n) \<longrightarrow> \<not> fids_at (fids (srv (px s'))) n)"
      by (simp add: s')
  qed
  have 8: "dup_rejections s' = 0" using nd by (simp add: dup_rejections_def s')
  have "mgr_wf (mgr (cl s')) \<and> inv_live s' \<and> inv_pend s'"
  proof (cases k)
    case (WWalk n)
    with ip pk have al: "m_state (mgr (cl s)) n = Some Allocated" by (auto simp: inv_pend_def)
    from WWalk an have "Type r = Rwalk" by simp
    with WWalk al have m': "mgr (cl s') =
        (mgr (cl s))\<lparr>m_state := (m_state (mgr (cl s)))(n \<mapsto> Active)\<rparr>"
      by (simp add: s' mgr_do_def markActive_def)
    have a: "mgr_wf (mgr (cl s'))" using wf al unfolding m' by (auto simp: mgr_wf_def)
    have b: "inv_live s'" using il unfolding inv_live_def m' by (auto simp: s' live_def)
    have c: "inv_pend s'"
      unfolding inv_pend_def
    proof (intro conjI allI impI)
      fix t k assume "pending (cl s') t = Some (WWalk k)"
      then have t: "t \<noteq> Tag r" "pending (cl s) t = Some (WWalk k)"
        by (auto simp: s' split: if_splits)
      with ip pk WWalk have "k \<noteq> n" "m_state (mgr (cl s)) k = Some Allocated"
        by (auto simp: inv_pend_def)
      then show "m_state (mgr (cl s')) k = Some Allocated" by (simp add: m')
    next
      fix t k assume "pending (cl s') t = Some (WClunk k)"
      then have "pending (cl s) t = Some (WClunk k)" by (auto simp: s' split: if_splits)
      with ip have "m_state (mgr (cl s)) k = Some Retiring" by (auto simp: inv_pend_def)
      with al show "m_state (mgr (cl s')) k = Some Retiring" by (auto simp: m')
    next
      fix t t' k
      assume "pending (cl s') t = Some (WWalk k) \<and> pending (cl s') t' = Some (WWalk k)"
      then have "pending (cl s) t = Some (WWalk k) \<and> pending (cl s) t' = Some (WWalk k)"
        by (auto simp: s' split: if_splits)
      with ip show "t = t'" unfolding inv_pend_def by blast
    next
      fix t t' k
      assume "pending (cl s') t = Some (WClunk k) \<and> pending (cl s') t' = Some (WClunk k)"
      then have "pending (cl s) t = Some (WClunk k) \<and> pending (cl s) t' = Some (WClunk k)"
        by (auto simp: s' split: if_splits)
      with ip show "t = t'" unfolding inv_pend_def by blast
    qed
    from a b c show ?thesis by simp
  next
    case (WOpen f)
    then have m': "mgr (cl s') = mgr (cl s)" by (simp add: s')
    have b: "inv_live s'" using il unfolding inv_live_def m' by (simp add: s')
    have c: "inv_pend s'"
      unfolding inv_pend_def
    proof (intro conjI allI impI)
      fix t k assume "pending (cl s') t = Some (WWalk k)"
      then have "pending (cl s) t = Some (WWalk k)" by (auto simp: s' split: if_splits)
      with ip show "m_state (mgr (cl s')) k = Some Allocated" by (auto simp: inv_pend_def m')
    next
      fix t k assume "pending (cl s') t = Some (WClunk k)"
      then have "pending (cl s) t = Some (WClunk k)" by (auto simp: s' split: if_splits)
      with ip show "m_state (mgr (cl s')) k = Some Retiring" by (auto simp: inv_pend_def m')
    next
      fix t t' k
      assume "pending (cl s') t = Some (WWalk k) \<and> pending (cl s') t' = Some (WWalk k)"
      then have "pending (cl s) t = Some (WWalk k) \<and> pending (cl s) t' = Some (WWalk k)"
        by (auto simp: s' split: if_splits)
      with ip show "t = t'" unfolding inv_pend_def by blast
    next
      fix t t' k
      assume "pending (cl s') t = Some (WClunk k) \<and> pending (cl s') t' = Some (WClunk k)"
      then have "pending (cl s) t = Some (WClunk k) \<and> pending (cl s) t' = Some (WClunk k)"
        by (auto simp: s' split: if_splits)
      with ip show "t = t'" unfolding inv_pend_def by blast
    qed
    from wf b c m' show ?thesis by simp
  next
    case (WClunk n)
    with ip pk have re: "m_state (mgr (cl s)) n = Some Retiring" by (auto simp: inv_pend_def)
    from WClunk an have "Type r = Rclunk" by simp
    with WClunk re have m': "mgr (cl s') =
        (mgr (cl s))\<lparr>m_state := (m_state (mgr (cl s)))(n \<mapsto> Free),
                      m_freed := n # m_freed (mgr (cl s))\<rparr>"
      by (simp add: s' mgr_do_def confirmRetire_def)
    have a: "mgr_wf (mgr (cl s'))" using wf re unfolding m' by (auto simp: mgr_wf_def)
    from cf [OF WClunk] have "\<not> fids_at (fids (srv (px s))) n" .
    with il have b: "inv_live s'" unfolding inv_live_def m' by (auto simp: s' live_def)
    have c: "inv_pend s'"
      unfolding inv_pend_def
    proof (intro conjI allI impI)
      fix t k assume "pending (cl s') t = Some (WWalk k)"
      then have "pending (cl s) t = Some (WWalk k)" by (auto simp: s' split: if_splits)
      with ip have "m_state (mgr (cl s)) k = Some Allocated" by (auto simp: inv_pend_def)
      with re show "m_state (mgr (cl s')) k = Some Allocated" by (auto simp: m')
    next
      fix t k assume "pending (cl s') t = Some (WClunk k)"
      then have t: "t \<noteq> Tag r" "pending (cl s) t = Some (WClunk k)"
        by (auto simp: s' split: if_splits)
      with ip pk WClunk have "k \<noteq> n" "m_state (mgr (cl s)) k = Some Retiring"
        by (auto simp: inv_pend_def)
      then show "m_state (mgr (cl s')) k = Some Retiring" by (simp add: m')
    next
      fix t t' k
      assume "pending (cl s') t = Some (WWalk k) \<and> pending (cl s') t' = Some (WWalk k)"
      then have "pending (cl s) t = Some (WWalk k) \<and> pending (cl s) t' = Some (WWalk k)"
        by (auto simp: s' split: if_splits)
      with ip show "t = t'" unfolding inv_pend_def by blast
    next
      fix t t' k
      assume "pending (cl s') t = Some (WClunk k) \<and> pending (cl s') t' = Some (WClunk k)"
      then have "pending (cl s) t = Some (WClunk k) \<and> pending (cl s) t' = Some (WClunk k)"
        by (auto simp: s' split: if_splits)
      with ip show "t = t'" unfolding inv_pend_def by blast
    qed
    from a b c show ?thesis by simp
  qed
  with 1 3 4 5 6 8 show ?thesis by (simp add: inv_def)
qed


subsection \<open>The server reads a request\<close>

text \<open>The server answers the request at the head of the wire at once.\<close>

lemma inv_reply:
  assumes i: "inv s" and wq: "wire s = q # qs"
    and w: "w = (px s)\<lparr>srv := (srv (px s))\<lparr>fids := F', out := out (srv (px s)) @ [r']\<rparr>\<rparr>"
    and tg: "Tag r' = Tag q" and an: "answers (pending (cl s) (Tag q)) r'"
    and nc: "\<forall>n. pending (cl s) (Tag q) \<noteq> Some (WClunk n)"
    and F': "\<forall>n. fids_at F' n \<longrightarrow> fids_at (fids (srv (px s))) n \<or> pending (cl s) (Tag q) = Some (WWalk n)"
    and nd': "\<not> (Type r' = Rerror \<and> Ename r' = ''duplicate fid'')"
  shows "inv (s\<lparr>px := w, wire := qs\<rparr>)"
proof -
  let ?s' = "s\<lparr>px := w, wire := qs\<rparr>"
  from i have wf: "mgr_wf (mgr (cl s))" and ipx: "inv_px s" and il: "inv_live s"
    and iw: "inv_wire s" and ig: "inv_gos s" and ir: "inv_resp s" and d: "distinct (tokens s)"
    and ip: "inv_pend s" and nd: "dup_rejections s = 0"
    by (simp_all add: inv_def)
  from ipx have g: "got s \<le> length (out (srv (px s)))" by (simp add: inv_px_def)
  then have fl: "inflight ?s' = inflight s @ [r']" by (simp add: inflight_def w)
  have un: "unsent w = unsent (px s)" by (simp add: unsent_def w)
  have "mset (tokens ?s') = mset (tokens s)"
    by (simp add: tokens_def fl un wq tg)
  from distinct_same_tokens [OF d this] have 6: "distinct (tokens ?s')" .
  from d wq have nq: "\<forall>x \<in> set qs. Tag x \<noteq> Tag q" by (auto simp: tokens_def image_iff)
  have 1: "inv_px ?s'" using ipx by (simp add: inv_px_def w)
  have 2: "inv_live ?s'"
    unfolding inv_live_def
  proof (intro allI impI)
    fix n assume "fids_at (fids (srv (px ?s'))) n"
    then have "fids_at F' n" by (simp add: w)
    with F' have "fids_at (fids (srv (px s))) n \<or> pending (cl s) (Tag q) = Some (WWalk n)" by blast
    then show "live (mgr (cl ?s')) n"
    proof
      assume "fids_at (fids (srv (px s))) n"
      with il show ?thesis by (simp add: inv_live_def)
    next
      assume "pending (cl s) (Tag q) = Some (WWalk n)"
      with ip have "m_state (mgr (cl s)) n = Some Allocated" unfolding inv_pend_def by blast
      then show ?thesis by (simp add: live_def)
    qed
  qed
  have 3: "inv_wire ?s'"
    unfolding inv_wire_def
  proof
    fix x assume x: "x \<in> set (wire ?s')"
    then have xq: "x \<in> set qs" by simp
    with wq iw have a: "asked (pending (cl s) (Tag x)) x"
      and b: "Type x = Twalk \<longrightarrow> \<not> fids_at (fids (srv (px s))) (Newfid x)"
      by (auto simp: inv_wire_def)
    have "\<not> fids_at F' (Newfid x)" if tw: "Type x = Twalk"
    proof
      assume "fids_at F' (Newfid x)"
      with F' b tw have 1: "pending (cl s) (Tag q) = Some (WWalk (Newfid x))" by blast
      from a tw have 2: "pending (cl s) (Tag x) = Some (WWalk (Newfid x))"
        by (rule asked_Twalk)
      from ip 1 2 have "Tag q = Tag x" unfolding inv_pend_def by blast
      with nq xq show False by auto
    qed
    with a show "asked (pending (cl ?s') (Tag x)) x \<and>
        (Type x = Twalk \<longrightarrow> \<not> fids_at (fids (srv (px ?s'))) (Newfid x))"
      by (simp add: w)
  qed
  have ret: "\<not> fids_at F' n" if "m_state (mgr (cl s)) n = Some Retiring"
    "\<not> fids_at (fids (srv (px s))) n" for n
  proof
    assume "fids_at F' n"
    with F' that(2) have "pending (cl s) (Tag q) = Some (WWalk n)" by blast
    with ip have "m_state (mgr (cl s)) n = Some Allocated" unfolding inv_pend_def by blast
    with that(1) show False by simp
  qed
  have 4: "inv_gos ?s'"
    unfolding inv_gos_def
  proof
    fix g assume "g \<in> set (unsent (px ?s'))"
    then have "g \<in> set (unsent (px s))" by (simp add: un)
    with ig have a: "pending (cl s) (g_tag g) = Some (WClunk (g_fid g))"
      and b: "g_stage g = Deleted \<longrightarrow> \<not> fids_at (fids (srv (px s))) (g_fid g)"
      by (auto simp: inv_gos_def)
    from a ip have "m_state (mgr (cl s)) (g_fid g) = Some Retiring"
      unfolding inv_pend_def by blast
    from ret [OF this] a b
    show "pending (cl ?s') (g_tag g) = Some (WClunk (g_fid g)) \<and>
        (g_stage g = Deleted \<longrightarrow> \<not> fids_at (fids (srv (px ?s'))) (g_fid g))"
      by (auto simp: w)
  qed
  have 5: "inv_resp ?s'"
    unfolding inv_resp_def
  proof
    fix x assume "x \<in> set (inflight ?s')"
    then have "x \<in> set (inflight s) \<or> x = r'" by (auto simp: fl)
    then show "answers (pending (cl ?s') (Tag x)) x \<and>
        (\<forall>n. pending (cl ?s') (Tag x) = Some (WClunk n) \<longrightarrow> \<not> fids_at (fids (srv (px ?s'))) n)"
    proof
      assume "x \<in> set (inflight s)"
      with ir have a: "answers (pending (cl s) (Tag x)) x"
        and b: "\<forall>n. pending (cl s) (Tag x) = Some (WClunk n) \<longrightarrow> \<not> fids_at (fids (srv (px s))) n"
        by (auto simp: inv_resp_def)
      have "\<not> fids_at F' n" if p: "pending (cl s) (Tag x) = Some (WClunk n)" for n
      proof -
        from p ip have "m_state (mgr (cl s)) n = Some Retiring" unfolding inv_pend_def by blast
        from ret [OF this] b p show ?thesis by blast
      qed
      with a show ?thesis by (simp add: w)
    next
      assume "x = r'"
      with an nc tg show ?thesis by (simp add: w)
    qed
  qed
  have 7: "inv_pend ?s'" using ip by (simp add: inv_pend_def)
  have 8: "dup_rejections ?s' = 0" using nd nd' by (auto simp: dup_rejections_def w)
  from wf 1 2 3 4 5 6 7 8 show ?thesis by (simp add: inv_def)
qed


lemma inv_p_read:
  assumes i: "inv s" and e: "p_read s = Some s'"
  shows "inv s'"
proof -
  from i have wf: "mgr_wf (mgr (cl s))" and ipx: "inv_px s" and il: "inv_live s"
    and iw: "inv_wire s" and ig: "inv_gos s" and ir: "inv_resp s" and d: "distinct (tokens s)"
    and ip: "inv_pend s" and nd: "dup_rejections s = 0"
    by (simp_all add: inv_def)
  from e obtain q qs w where wq: "wire s = q # qs"
    and st: "step (px s) (Read (Some q)) = Some w" and s': "s' = s\<lparr>px := w, wire := qs\<rparr>"
    by (auto simp: p_read_def split: list.splits option.splits)
  from st ipx have lp: "pc (px s) = AtLoop" and w: "w = serve_loop (px s) q"
    by (auto simp: inv_px_def serve_read_def)
  from iw wq have a: "asked (pending (cl s) (Tag q)) q"
    and nf: "Type q = Twalk \<longrightarrow> \<not> fids_at (fids (srv (px s))) (Newfid q)"
    by (auto simp: inv_wire_def)
  from asked_cases [OF a] show ?thesis
  proof (elim disjE conjE)
    assume t: "Type q = Twalk" and p: "pending (cl s) (Tag q) = Some (WWalk (Newfid q))"
    let ?r = "Fcall0\<lparr>Type := Rwalk, Tag := Tag q, Wqid := walk_qids q\<rparr>"
    let ?F = "(fids (srv (px s)))(Newfid q \<mapsto> True)"
    from t nf have w': "w = (px s)\<lparr>srv := (srv (px s))\<lparr>fids := ?F,
        out := out (srv (px s)) @ [?r]\<rparr>\<rparr>"
      by (simp add: w serve_loop_def serve_Twalk_def send_def Let_def)
    have "inv (s\<lparr>px := w, wire := qs\<rparr>)"
    proof (rule inv_reply [OF i wq w'])
      show "Tag ?r = Tag q" by simp
      show "answers (pending (cl s) (Tag q)) ?r" by (simp add: p)
      show "\<forall>n. pending (cl s) (Tag q) \<noteq> Some (WClunk n)" by (simp add: p)
      show "\<forall>n. fids_at ?F n \<longrightarrow> fids_at (fids (srv (px s))) n \<or>
          pending (cl s) (Tag q) = Some (WWalk n)"
        by (auto simp: p fids_at_def)
      show "\<not> (Type ?r = Rerror \<and> Ename ?r = ''duplicate fid'')" by (simp add: msg_consts)
    qed
    then show ?thesis by (simp add: s')
  next
    assume t: "Type q = Topen" and p: "pending (cl s) (Tag q) = Some (WOpen (Fid q))"
    let ?r = "Fcall0\<lparr>Type := Ropen, Tag := Tag q, Qid := Qid0\<lparr>Qid_Type := QTFILE, Qid_Path := 1\<rparr>\<rparr>"
    from t have w': "w = (px s)\<lparr>srv := (srv (px s))\<lparr>fids := fids (srv (px s)),
        out := out (srv (px s)) @ [?r]\<rparr>\<rparr>"
      by (simp add: w serve_loop_def serve_Topen_def send_def msg_consts)
    have "inv (s\<lparr>px := w, wire := qs\<rparr>)"
    proof (rule inv_reply [OF i wq w'])
      show "Tag ?r = Tag q" by simp
      show "answers (pending (cl s) (Tag q)) ?r" by (simp add: p)
      show "\<forall>n. pending (cl s) (Tag q) \<noteq> Some (WClunk n)" by (simp add: p)
      show "\<forall>n. fids_at (fids (srv (px s))) n \<longrightarrow> fids_at (fids (srv (px s))) n \<or>
          pending (cl s) (Tag q) = Some (WWalk n)" by simp
      show "\<not> (Type ?r = Rerror \<and> Ename ?r = ''duplicate fid'')" by (simp add: msg_consts)
    qed
    then show ?thesis by (simp add: s')
  next
    assume t: "Type q = Tclunk" and p: "pending (cl s) (Tag q) = Some (WClunk (Fid q))"
    from t have w': "w = serve_Tclunk (px s) q" by (simp add: w serve_loop_def msg_consts)
    have sub: "set qs \<subseteq> set (wire s)" using wq by auto
    show ?thesis
    proof (cases "clunkSeen (srv (px s)) = ChanNil")
      case True
      with w' have w'': "w = (px s)\<lparr>pc := Panicked\<rparr>" by (simp add: serve_Tclunk_def)
      have "mset (tokens s) = add_mset (Tag q) (mset (tokens s'))"
        by (simp add: tokens_def s' w'' wq unsent_def inflight_def)
      from distinct_drop_token [OF d this] have 6: "distinct (tokens s')" by simp
      have 1: "inv_px s'" using ipx by (simp add: inv_px_def s' w'')
      have 2: "inv_live s'" using il by (simp add: inv_live_def s' w'')
      have 3: "inv_wire s'" using iw sub by (auto simp: inv_wire_def s' w'')
      have 4: "inv_gos s'" using ig by (simp add: inv_gos_def s' w'' unsent_def)
      have 5: "inv_resp s'" using ir by (simp add: inv_resp_def s' w'' inflight_def)
      have 7: "inv_pend s'" using ip by (simp add: inv_pend_def s')
      have 8: "dup_rejections s' = 0" using nd by (simp add: dup_rejections_def s' w'')
      from wf 1 2 3 4 5 6 7 8 show ?thesis by (simp add: inv_def s')
    next
      case False
      let ?g = "\<lparr>g_tag = Tag q, g_fid = Fid q, g_since = now (px s), g_stage = Sleeping\<rparr>"
      from False w' have w'': "w = (px s)\<lparr>srv := (srv (px s))\<lparr>clunkSeen := ChanClosed\<rparr>,
          gos := gos (px s) @ [?g]\<rparr>"
        by (cases "clunkSeen (srv (px s))") (simp_all add: serve_Tclunk_def)
      have un: "unsent w = unsent (px s) @ [?g]" by (simp add: unsent_def w'')
      have "mset (tokens s') = mset (tokens s)"
        by (simp add: tokens_def s' un wq) (simp add: w'' inflight_def)
      from distinct_same_tokens [OF d this] have 6: "distinct (tokens s')" .
      have 1: "inv_px s'" using ipx by (simp add: inv_px_def s' w'')
      have 2: "inv_live s'" using il by (simp add: inv_live_def s' w'')
      have 3: "inv_wire s'" using iw sub by (auto simp: inv_wire_def s' w'')
      have 4: "inv_gos s'"
        unfolding inv_gos_def
      proof
        fix g assume "g \<in> set (unsent (px s'))"
        then have "g \<in> set (unsent (px s)) \<or> g = ?g" by (auto simp: s' un)
        then show "pending (cl s') (g_tag g) = Some (WClunk (g_fid g)) \<and>
            (g_stage g = Deleted \<longrightarrow> \<not> fids_at (fids (srv (px s'))) (g_fid g))"
        proof
          assume "g \<in> set (unsent (px s))"
          with ig show ?thesis by (simp add: inv_gos_def s' w'')
        next
          assume "g = ?g"
          with p show ?thesis by (simp add: s')
        qed
      qed
      have 5: "inv_resp s'" using ir by (simp add: inv_resp_def s' w'' inflight_def)
      have 7: "inv_pend s'" using ip by (simp add: inv_pend_def s')
      have 8: "dup_rejections s' = 0" using nd by (simp add: dup_rejections_def s' w'')
      from wf 1 2 3 4 5 6 7 8 show ?thesis by (simp add: inv_def s')
    qed
  qed
qed


subsection \<open>Time and the goroutines\<close>

lemma set_filter_update: "set (filter P (xs[i := y])) \<subseteq> insert y (set (filter P xs))"
  using set_update_subset_insert [of xs i y] by auto

lemma set_filter_update_out: "\<not> P y \<Longrightarrow> set (filter P (xs[i := y])) \<subseteq> set (filter P xs)"
  using set_update_subset_insert [of xs i y] by auto

lemma mset_unsent: "image_mset g_tag (mset (unsent w)) = gtags (gos w)"
  by (simp add: gtags_def unsent_def)

lemma inv_p_int:
  assumes i: "inv s" and e: "p_int ev s = Some s'"
  shows "inv s'"
proof -
  from i have wf: "mgr_wf (mgr (cl s))" and ipx: "inv_px s" and il: "inv_live s"
    and iw: "inv_wire s" and ig: "inv_gos s" and ir: "inv_resp s" and d: "distinct (tokens s)"
    and ip: "inv_pend s" and nd: "dup_rejections s = 0"
    by (simp_all add: inv_def)
  have 7: "inv_pend s'" if "cl s' = cl s" using ip that by (simp add: inv_pend_def)
  show ?thesis
  proof (cases ev)
    case (Read r)
    with e show ?thesis by (simp add: p_int_def)
  next
    case (Advance k)
    with e have s': "s' = s\<lparr>px := (px s)\<lparr>now := now (px s) + int k\<rparr>\<rparr>"
      by (auto simp: p_int_def split: if_splits)
    from i show ?thesis
      by (simp add: inv_def inv_defs s' tokens_def unsent_def inflight_def dup_rejections_def)
  next
    case MakeClunkSeen
    with e have s': "s' = s\<lparr>px := (px s)\<lparr>srv := (srv (px s))\<lparr>clunkSeen := ChanOpen\<rparr>\<rparr>\<rparr>"
      by (auto simp: p_int_def split: if_splits)
    from i show ?thesis
      by (simp add: inv_def inv_defs s' tokens_def unsent_def inflight_def dup_rejections_def)
  next
    case (GoDelete j)
    define g where "g = gos (px s) ! j"
    let ?F = "(fids (srv (px s)))(g_fid g := None)"
    let ?w = "(px s)\<lparr>srv := (srv (px s))\<lparr>fids := ?F\<rparr>,
        gos := (gos (px s))[j := g\<lparr>g_stage := Deleted\<rparr>]\<rparr>"
    from GoDelete e have j: "j < length (gos (px s))" and sl: "g_stage g = Sleeping"
      and s': "s' = s\<lparr>px := ?w\<rparr>"
      by (auto simp: p_int_def go_delete_def Let_def g_def split: if_splits option.splits)
    from j sl have gin: "g \<in> set (unsent (px s))" by (simp add: unsent_def g_def)
    have sub: "set (unsent ?w) \<subseteq> insert (g\<lparr>g_stage := Deleted\<rparr>) (set (unsent (px s)))"
      using set_filter_update [of "\<lambda>g. g_stage g \<noteq> Finished" "gos (px s)" j "g\<lparr>g_stage := Deleted\<rparr>"]
      by (simp add: unsent_def)
    have F: "\<And>n. fids_at ?F n \<Longrightarrow> fids_at (fids (srv (px s))) n"
      by (auto simp: fids_at_def split: if_splits)
    have "gtags (gos ?w) = gtags (gos (px s))"
      using gtags_update_same [OF j, of Deleted] sl by (simp add: g_def)
    then have "mset (tokens s') = mset (tokens s)"
      by (simp add: tokens_def mset_unsent s') (simp add: inflight_def)
    from distinct_same_tokens [OF d this] have 6: "distinct (tokens s')" .
    have 1: "inv_px s'" using ipx by (simp add: inv_px_def s')
    have 2: "inv_live s'" using il F by (auto simp: inv_live_def s')
    have 3: "inv_wire s'" using iw F by (auto simp: inv_wire_def s')
    have 4: "inv_gos s'"
      unfolding inv_gos_def
    proof
      fix x assume "x \<in> set (unsent (px s'))"
      with sub have "x = g\<lparr>g_stage := Deleted\<rparr> \<or> x \<in> set (unsent (px s))" by (auto simp: s')
      then show "pending (cl s') (g_tag x) = Some (WClunk (g_fid x)) \<and>
          (g_stage x = Deleted \<longrightarrow> \<not> fids_at (fids (srv (px s'))) (g_fid x))"
      proof
        assume x: "x = g\<lparr>g_stage := Deleted\<rparr>"
        from ig gin have "pending (cl s) (g_tag g) = Some (WClunk (g_fid g))"
          by (simp add: inv_gos_def)
        with x show ?thesis by (simp add: s' fids_at_def)
      next
        assume "x \<in> set (unsent (px s))"
        with ig have "pending (cl s) (g_tag x) = Some (WClunk (g_fid x))"
          "g_stage x = Deleted \<longrightarrow> \<not> fids_at (fids (srv (px s))) (g_fid x)"
          by (simp_all add: inv_gos_def)
        with F show ?thesis by (auto simp: s')
      qed
    qed
    have 5: "inv_resp s'" using ir F by (auto simp: inv_resp_def s' inflight_def)
    have 8: "dup_rejections s' = 0" using nd by (simp add: dup_rejections_def s')
    from wf 1 2 3 4 5 6 7 8 show ?thesis by (simp add: inv_def s')
  next
    case (GoSend j)
    define g where "g = gos (px s) ! j"
    let ?r = "Fcall0\<lparr>Type := Rclunk, Tag := g_tag g\<rparr>"
    let ?w = "(px s)\<lparr>srv := (srv (px s))\<lparr>out := out (srv (px s)) @ [?r]\<rparr>,
        gos := (gos (px s))[j := g\<lparr>g_stage := Finished\<rparr>]\<rparr>"
    from GoSend e have j: "j < length (gos (px s))" and dl: "g_stage g = Deleted"
      and s': "s' = s\<lparr>px := ?w\<rparr>"
      by (auto simp: p_int_def go_send_def send_def Let_def g_def split: if_splits option.splits)
    from j dl have gin: "g \<in> set (unsent (px s))" by (simp add: unsent_def g_def)
    with ig have pg: "pending (cl s) (g_tag g) = Some (WClunk (g_fid g))"
      and ng: "\<not> fids_at (fids (srv (px s))) (g_fid g)"
      using dl by (simp_all add: inv_gos_def)
    have sub: "set (unsent ?w) \<subseteq> set (unsent (px s))"
      using set_filter_update_out [of "\<lambda>g. g_stage g \<noteq> Finished" "g\<lparr>g_stage := Finished\<rparr>" "gos (px s)" j]
      by (simp add: unsent_def)
    from ipx have "got s \<le> length (out (srv (px s)))" by (simp add: inv_px_def)
    then have fl: "inflight s' = inflight s @ [?r]" by (simp add: inflight_def s')
    from dl have "g_stage (gos (px s) ! j) \<noteq> Finished" by (simp add: g_def)
    from gtags_update_finish [OF j this]
    have "add_mset (g_tag g) (gtags (gos ?w)) = gtags (gos (px s))" by (simp add: g_def)
    then have "mset (tokens s') = mset (tokens s)"
      by (simp add: tokens_def mset_unsent fl) (simp add: s')
    from distinct_same_tokens [OF d this] have 6: "distinct (tokens s')" .
    have 1: "inv_px s'" using ipx by (simp add: inv_px_def s')
    have 2: "inv_live s'" using il by (simp add: inv_live_def s')
    have 3: "inv_wire s'" using iw by (simp add: inv_wire_def s')
    have 4: "inv_gos s'" using ig sub by (auto simp: inv_gos_def s')
    have 5: "inv_resp s'"
      unfolding inv_resp_def
    proof
      fix x assume "x \<in> set (inflight s')"
      then have "x \<in> set (inflight s) \<or> x = ?r" by (auto simp: fl)
      then show "answers (pending (cl s') (Tag x)) x \<and>
          (\<forall>n. pending (cl s') (Tag x) = Some (WClunk n) \<longrightarrow> \<not> fids_at (fids (srv (px s'))) n)"
      proof
        assume "x \<in> set (inflight s)"
        with ir show ?thesis by (simp add: inv_resp_def s')
      next
        assume "x = ?r"
        with pg ng show ?thesis by (simp add: s')
      qed
    qed
    have 8: "dup_rejections s' = 0" using nd by (simp add: dup_rejections_def s' msg_consts)
    from wf 1 2 3 4 5 6 7 8 show ?thesis by (simp add: inv_def s')
  qed
qed

subsection \<open>Every run\<close>

lemma inv_nstep: "inv s \<Longrightarrow> nstep s e = Some s' \<Longrightarrow> inv s'"
  by (cases e) (auto intro: inv_c_walk inv_c_open inv_c_close inv_c_recv inv_p_read inv_p_int)

lemma inv_nrun: "inv s \<Longrightarrow> nrun s es = Some s' \<Longrightarrow> inv s'"
proof (induction es arbitrary: s)
  case Nil
  then show ?case by simp
next
  case (Cons e es)
  from Cons.prems(2) obtain s1 where "nstep s e = Some s1" "nrun s1 es = Some s'"
    by (auto split: option.splits)
  with Cons.IH inv_nstep [OF Cons.prems(1)] show ?case by blast
qed

lemma inv_net0: "inv (net0 d)"
  by (simp add: inv_def inv_defs net0_def mgr_wf_def mgr0_def allocate_def markActive_def
      NOFID_def serve_version_def serve_attach_def send_def new_world_def tokens_def unsent_def
      inflight_def dup_rejections_def fids_at_def live_def tattach0_def tversion0_def Fcall0_def
      msg_consts)

lemma no_duplicate_fid: "nrun (net0 d) es = Some s \<Longrightarrow> dup_rejections s = 0"
  using inv_nrun [OF inv_net0] by (simp add: inv_def)

subsection \<open>The rounds of the test\<close>

lemmas net_defs = c_walk_def c_open_def c_close_def c_recv_def p_read_def p_int_def
  allocate_def markActive_def beginRetire_def confirmRetire_def release_def mgr_do_def
  mgr0_def NOFID_def serve_defs new_world_def tversion0_def tattach0_def Fcall0_def Qid0_def
  walk_qids_def fids_at_def msg_consts Let_def

lemma nrun_append:
  "nrun s (xs @ ys) = (case nrun s xs of None \<Rightarrow> None | Some s' \<Rightarrow> nrun s' ys)"
  by (induction xs arbitrary: s) (auto split: option.splits)

lemma round0: "\<exists>s. nrun (net0 5000000) (round 0) = Some s \<and> rested 1 s"
  by (simp add: net0_def round_def net_defs rested_def)

text \<open>
  In round 0, when the client walks again the server has read the Tclunk of fid 1 and
  still lists it; the client holds fid 1 as retiring.
\<close>

lemma round0_reopen:
  "\<exists>s. nrun (net0 5000000) (take 9 (round 0)) = Some s \<and>
     fids_at (fids (srv (px s))) 1 \<and> m_state (mgr (cl s)) 1 = Some Retiring"
  by (simp add: net0_def round_def net_defs)

lemma round_next:
  assumes "rested i s"
  shows "\<exists>s'. nrun s (round i) = Some s' \<and> rested (Suc i) s'"
  using assms
  by (simp add: round_def net_defs rested_def nth_append list_update_append)

lemma rounds_run: "\<exists>s. nrun (net0 5000000) (rounds (Suc n)) = Some s \<and> rested (Suc n) s"
proof (induction n)
  case 0
  from round0 show ?case by (simp add: rounds_def)
next
  case (Suc n)
  then obtain s where r: "nrun (net0 5000000) (rounds (Suc n)) = Some s"
    and s: "rested (Suc n) s" by blast
  from round_next [OF s] obtain s' where "nrun s (round (Suc n)) = Some s'"
    "rested (Suc (Suc n)) s'" by blast
  moreover have "rounds (Suc (Suc n)) = rounds (Suc n) @ round (Suc n)"
    by (simp add: rounds_def)
  ultimately show ?case using r by (simp add: nrun_append)
qed

text \<open>
  Claim C1. On the manager: in every sequence of operations on a new manager, between a
  retirement request for fid \<open>n\<close> and a later \<open>allocate\<close> that returns \<open>n\<close> lies the
  confirmation of a retirement of \<open>n\<close>, which is the delivery of the server's Rclunk; the
  request alone never frees the number. On the connection: however the client's calls,
  its reader, the server's reads, its goroutines and the clock interleave after the
  attach, the proxy never sends the error "duplicate fid"; so over the 20 rounds of the
  test, in any order, there are none.
\<close>

theorem fid_not_reused_before_ack:
  "(trace mgr0 ops = pre @ (BeginRetire n, Done) # mid @ (Allocate c, Gave n) # post \<longrightarrow>
      (ConfirmRetire n, Done) \<in> set mid) \<and>
   (nrun (net0 d) es = Some s \<longrightarrow> dup_rejections s = 0)"
  using no_reuse_before_ack no_duplicate_fid by blast

theorem fid_not_reused_before_ack_witness:
  "trace mgr0 [Allocate 0, MarkActive 0, BeginRetire 0, ConfirmRetire 0, Allocate 0] =
     [(Allocate 0, Gave 0), (MarkActive 0, Done)] @ (BeginRetire 0, Done) #
     [(ConfirmRetire 0, Done)] @ (Allocate 0, Gave 0) # [] \<and>
   (ConfirmRetire 0, Done) \<in> set [(ConfirmRetire 0, Done)] \<and>
   nrun (net0 5000000) (rounds 20) \<noteq> None \<and>
   dup_rejections (the (nrun (net0 5000000) (rounds 20))) = 0"
proof -
  have t: "trace mgr0 [Allocate 0, MarkActive 0, BeginRetire 0, ConfirmRetire 0, Allocate 0] =
     [(Allocate 0, Gave 0), (MarkActive 0, Done)] @ (BeginRetire 0, Done) #
     [(ConfirmRetire 0, Done)] @ (Allocate 0, Gave 0) # []"
    by (simp add: mgr0_def allocate_def markActive_def beginRetire_def confirmRetire_def
        NOFID_def)
  from rounds_run [of 19] obtain s where r: "nrun (net0 5000000) (rounds 20) = Some s"
    by auto
  note inst = fid_not_reused_before_ack [of "[Allocate 0, MarkActive 0, BeginRetire 0,
      ConfirmRetire 0, Allocate 0]" "[(Allocate 0, Gave 0), (MarkActive 0, Done)]" 0
      "[(ConfirmRetire 0, Done)]" 0 "[]" 5000000 "rounds 20" s]
  from inst t have a: "(ConfirmRetire 0, Done) \<in> set [(ConfirmRetire 0, Done)]" by blast
  from inst r have b: "dup_rejections s = 0" by blast
  from t a b r show ?thesis by simp
qed

end
